theory Spec2Isabelle
  imports Main "HOL-Library.AList" "HOL-Library.Char_ord"
begin

section \<open>JavaScript strings and values\<close>

text \<open>
  Strings are \<open>char list\<close>s. All inputs of the development are ASCII, so an index
  into the list is the index JavaScript uses. The operations of \<open>String.prototype\<close>
  that \<open>proxy.js\<close> calls are written out with the results JavaScript gives at the
  ends of the range (\<open>-1\<close> from \<open>indexOf\<close>, the empty string from a \<open>substr\<close> of
  negative length).
\<close>

definition startsWith :: "string \<Rightarrow> string \<Rightarrow> bool" where
  "startsWith s p = (take (length p) s = p)"

fun find_sub :: "string \<Rightarrow> string \<Rightarrow> nat option" where
  "find_sub p [] = (if p = [] then Some 0 else None)"
| "find_sub p (c # s) =
     (if startsWith (c # s) p then Some 0 else map_option Suc (find_sub p s))"

text \<open>\<open>s.indexOf(p, from)\<close> and \<open>s.indexOf(p)\<close>.\<close>

definition indexOfFrom :: "string \<Rightarrow> string \<Rightarrow> nat \<Rightarrow> int" where
  "indexOfFrom s p from =
     (case find_sub p (drop from s) of None \<Rightarrow> - 1 | Some i \<Rightarrow> int (from + i))"

definition indexOf :: "string \<Rightarrow> string \<Rightarrow> int" where
  "indexOf s p = indexOfFrom s p 0"

text \<open>\<open>s.lastIndexOf(c)\<close> for a one-character string \<open>c\<close>.\<close>

fun lastIndexOfChar :: "string \<Rightarrow> char \<Rightarrow> int" where
  "lastIndexOfChar [] c = - 1"
| "lastIndexOfChar (x # s) c =
     (let r = lastIndexOfChar s c in
      if r \<noteq> - 1 then r + 1 else if x = c then 0 else - 1)"

text \<open>\<open>s.substr(start)\<close> and \<open>s.substr(start, len)\<close> for \<open>start \<ge> 0\<close>.\<close>

definition substr1 :: "string \<Rightarrow> int \<Rightarrow> string" where
  "substr1 s start = drop (nat start) s"

definition substr2 :: "string \<Rightarrow> int \<Rightarrow> int \<Rightarrow> string" where
  "substr2 s start len = take (nat len) (drop (nat start) s)"

text \<open>\<open>xs.indexOf(x)\<close> on an array.\<close>

fun arrayIndexOf :: "'a list \<Rightarrow> 'a \<Rightarrow> int" where
  "arrayIndexOf [] x = - 1"
| "arrayIndexOf (y # ys) x =
     (if y = x then 0
      else (let r = arrayIndexOf ys x in if r = - 1 then - 1 else r + 1))"

text \<open>
  A value that is a string or \<open>null\<close> (or a string or \<open>undefined\<close>) is a
  \<open>string option\<close>. In a concatenation, and as the argument of \<open>exec\<close>,
  JavaScript converts it to a string.
\<close>

definition str_null :: "string option \<Rightarrow> string" where
  "str_null v = (case v of None \<Rightarrow> ''null'' | Some s \<Rightarrow> s)"

definition str_undefined :: "string option \<Rightarrow> string" where
  "str_undefined v = (case v of None \<Rightarrow> ''undefined'' | Some s \<Rightarrow> s)"

text \<open>\<open>xs[i]\<close> on an array: \<open>undefined\<close> outside its range.\<close>

definition arr :: "'a list \<Rightarrow> int \<Rightarrow> 'a option" where
  "arr xs i = (if 0 \<le> i \<and> nat i < length xs then Some (xs ! nat i) else None)"

definition lower_char :: "char \<Rightarrow> char" where
  "lower_char c =
     (if CHR ''A'' \<le> c \<and> c \<le> CHR ''Z'' then char_of (of_char c + (32 :: nat)) else c)"

definition upper_char :: "char \<Rightarrow> char" where
  "upper_char c =
     (if CHR ''a'' \<le> c \<and> c \<le> CHR ''z'' then char_of (of_char c - (32 :: nat)) else c)"

definition toLowerCase :: "string \<Rightarrow> string" where
  "toLowerCase s = map lower_char s"

section \<open>Regular expressions\<close>

text \<open>
  The fragment of JavaScript's regular expressions that \<open>proxy.js\<close> writes as
  literals or builds with \<open>new RegExp\<close>. The matcher is the backtracking matcher of
  the language definition, as a list of successes: \<open>ms r st\<close> lists the states in
  which \<open>r\<close> can end when started in \<open>st\<close>, in the order in which backtracking
  tries them; the first element is the match JavaScript reports. A state is the number
  of characters consumed so far, the rest of the input and the captures made.
\<close>

datatype re =
    Eps
  | Lit char
  | Dot
  | CharSet bool "(char \<times> char) list"
  | Bol
  | Eol
  | Cat re re
  | Alt re re
  | Grp nat re
  | Star bool re
  | Plus bool re
  | Opt bool re

type_synonym mstate = "nat \<times> string \<times> (nat \<times> string) list"

definition in_ranges :: "(char \<times> char) list \<Rightarrow> char \<Rightarrow> bool" where
  "in_ranges rs c = list_ex (\<lambda>(lo, hi). lo \<le> c \<and> c \<le> hi) rs"

text \<open>Without the flag \<open>i\<close> a character matches itself; with it, both are compared
  in upper case, and a class contains a character when it contains either case of it.\<close>

definition lit_match :: "bool \<Rightarrow> char \<Rightarrow> char \<Rightarrow> bool" where
  "lit_match ci c x = (if ci then upper_char c = upper_char x else c = x)"

definition set_match :: "bool \<Rightarrow> bool \<Rightarrow> (char \<times> char) list \<Rightarrow> char \<Rightarrow> bool" where
  "set_match ci neg rs x =
     (let hit = (if ci then in_ranges rs (upper_char x) \<or> in_ranges rs (lower_char x)
                 else in_ranges rs x)
      in if neg then \<not> hit else hit)"

text \<open>\<open>.\<close> matches every character but a line terminator.\<close>

definition dot_match :: "char \<Rightarrow> bool" where
  "dot_match x = (x \<noteq> CHR 0x0A \<and> x \<noteq> CHR 0x0D)"

definition one_char :: "(char \<Rightarrow> bool) \<Rightarrow> mstate \<Rightarrow> mstate list" where
  "one_char P st =
     (case st of (pos, s, caps) \<Rightarrow>
        (case s of [] \<Rightarrow> [] | x # xs \<Rightarrow> if P x then [(Suc pos, xs, caps)] else []))"

definition set_cap :: "nat \<Rightarrow> mstate \<Rightarrow> mstate \<Rightarrow> mstate" where
  "set_cap i st st' =
     (case st of (pos, s, caps) \<Rightarrow>
        (case st' of (pos', s', caps') \<Rightarrow> (pos', s', (i, take (pos' - pos) s) # caps')))"

definition progress :: "mstate \<Rightarrow> mstate \<Rightarrow> bool" where
  "progress st st' = (length (fst (snd st')) < length (fst (snd st)))"

text \<open>The measure of the matcher's recursion: \<open>r+\<close> is \<open>r\<close> followed by \<open>r*\<close>.\<close>

fun weight :: "re \<Rightarrow> nat" where
  "weight (Cat a b) = Suc (weight a + weight b)"
| "weight (Alt a b) = Suc (weight a + weight b)"
| "weight (Grp i r) = Suc (weight r)"
| "weight (Star g r) = Suc (weight r)"
| "weight (Plus g r) = Suc (Suc (weight r))"
| "weight (Opt g r) = Suc (weight r)"
| "weight r = 0"

function ms :: "bool \<Rightarrow> re \<Rightarrow> mstate \<Rightarrow> mstate list" where
  "ms ci Eps st = [st]"
| "ms ci (Lit c) st = one_char (lit_match ci c) st"
| "ms ci Dot st = one_char dot_match st"
| "ms ci (CharSet neg rs) st = one_char (set_match ci neg rs) st"
| "ms ci Bol st = (if fst st = 0 then [st] else [])"
| "ms ci Eol st = (if fst (snd st) = [] then [st] else [])"
| "ms ci (Cat a b) st = concat (map (\<lambda>st'. ms ci b st') (ms ci a st))"
| "ms ci (Alt a b) st = ms ci a st @ ms ci b st"
| "ms ci (Grp i r) st = map (set_cap i st) (ms ci r st)"
| "ms ci (Star g r) st =
     (let more = concat (map (\<lambda>st'. ms ci (Star g r) st') (filter (progress st) (ms ci r st)))
      in if g then more @ [st] else st # more)"
| "ms ci (Plus g r) st = concat (map (\<lambda>st'. ms ci (Star g r) st') (ms ci r st))"
| "ms ci (Opt g r) st =
     (let once = filter (progress st) (ms ci r st)
      in if g then once @ [st] else st # once)"
  by pat_completeness auto
termination
  by (relation "inv_image (less_than <*lex*> less_than)
        (\<lambda>(ci, r, st). (weight r, length (fst (snd st))))")
     (auto simp: progress_def)

text \<open>
  A regular expression object: the pattern, the flag \<open>i\<close> and the number of its
  capturing groups. \<open>exec\<close> tries the start positions from the left, and returns the
  array \<open>m\<close> of the first match: \<open>m[0]\<close> the matched text, \<open>m[i]\<close> the text
  of group \<open>i\<close> (\<open>None\<close> for \<open>undefined\<close>), or \<open>None\<close> for \<open>null\<close>.
\<close>

record regexp =
  pattern :: re
  ignoreCase :: bool

fun ngroups :: "re \<Rightarrow> nat" where
  "ngroups (Cat a b) = ngroups a + ngroups b"
| "ngroups (Alt a b) = ngroups a + ngroups b"
| "ngroups (Grp i r) = Suc (ngroups r)"
| "ngroups (Star g r) = ngroups r"
| "ngroups (Plus g r) = ngroups r"
| "ngroups (Opt g r) = ngroups r"
| "ngroups r = 0"

type_synonym matcharray = "string option list"

definition match_at :: "regexp \<Rightarrow> nat \<Rightarrow> string \<Rightarrow> matcharray option" where
  "match_at rx pos s =
     (case ms (ignoreCase rx) (pattern rx) (pos, s, []) of
        [] \<Rightarrow> None
      | (pos', s', caps) # _ \<Rightarrow>
          Some (Some (take (pos' - pos) s) # map (map_of caps) [1 ..< Suc (ngroups (pattern rx))]))"

fun exec_from :: "regexp \<Rightarrow> nat \<Rightarrow> string \<Rightarrow> matcharray option" where
  "exec_from rx pos [] = match_at rx pos []"
| "exec_from rx pos (c # s) =
     (case match_at rx pos (c # s) of
        Some m \<Rightarrow> Some m
      | None \<Rightarrow> exec_from rx (Suc pos) s)"

definition exec :: "regexp \<Rightarrow> string \<Rightarrow> matcharray option" where
  "exec rx s = exec_from rx 0 s"

definition test :: "regexp \<Rightarrow> string \<Rightarrow> bool" where
  "test rx s = (exec rx s \<noteq> None)"

text \<open>A sequence of pattern items, and a literal string as a pattern.\<close>

fun seq :: "re list \<Rightarrow> re" where
  "seq [] = Eps"
| "seq [r] = r"
| "seq (r # rs) = Cat r (seq rs)"

definition lits :: "string \<Rightarrow> re list" where
  "lits s = map Lit s"


subsection \<open>\<open>new RegExp(pattern)\<close>\<close>

text \<open>
  Exceptions are values: a function that can throw returns \<open>error + 'a\<close>.
  \<open>new RegExp\<close> reads a pattern in two passes: the characters become tokens (an
  escaped character and a character class are one token each), and the tokens become
  the pattern, with a stack of the groups that are open. A pattern outside the fragment
  (a class escape such as \<open>\d\<close>, a brace quantifier, a look-ahead) is reported as a
  \<open>SyntaxError\<close> as well; \<open>compileRegexp\<close> builds no such pattern.
\<close>

datatype error = TypeError | SyntaxError | URIError | ReferenceError

abbreviation bslash :: char where
  "bslash \<equiv> CHR 0x5C"

datatype tok =
    TLit char | TDot | TSet bool "(char \<times> char) list"
  | TOpen | TClose | TStar | TPlus | TQuest | TBol | TEol | TBar

datatype pending = PNone | PChar char | PDash char

datatype tmode =
    Normal
  | Escape
  | ClassStart
  | InClass bool "(char \<times> char) list" pending

definition tcons :: "tok \<Rightarrow> error + tok list \<Rightarrow> error + tok list" where
  "tcons t r = (case r of Inl e \<Rightarrow> Inl e | Inr ts \<Rightarrow> Inr (t # ts))"

definition is_alnum :: "char \<Rightarrow> bool" where
  "is_alnum c =
     ((CHR ''a'' \<le> c \<and> c \<le> CHR ''z'') \<or> (CHR ''A'' \<le> c \<and> c \<le> CHR ''Z'')
      \<or> (CHR ''0'' \<le> c \<and> c \<le> CHR ''9''))"

definition plain_tok :: "char \<Rightarrow> tok option" where
  "plain_tok c =
     (if c = CHR ''.'' then Some TDot
      else if c = CHR ''('' then Some TOpen
      else if c = CHR '')'' then Some TClose
      else if c = CHR ''*'' then Some TStar
      else if c = CHR ''+'' then Some TPlus
      else if c = CHR ''?'' then Some TQuest
      else if c = CHR ''^'' then Some TBol
      else if c = CHR ''$'' then Some TEol
      else if c = CHR ''|'' then Some TBar
      else if c = CHR ''{'' then None
      else Some (TLit c))"

definition close_class :: "(char \<times> char) list \<Rightarrow> pending \<Rightarrow> (char \<times> char) list" where
  "close_class rs p =
     (case p of
        PNone \<Rightarrow> rs
      | PChar a \<Rightarrow> rs @ [(a, a)]
      | PDash a \<Rightarrow> rs @ [(a, a), (CHR ''-'', CHR ''-'')])"

fun tokenize_go :: "tmode \<Rightarrow> string \<Rightarrow> error + tok list" where
  "tokenize_go Normal [] = Inr []"
| "tokenize_go Normal (c # s) =
     (if c = bslash then tokenize_go Escape s
      else if c = CHR ''['' then tokenize_go ClassStart s
      else (case plain_tok c of
              None \<Rightarrow> Inl SyntaxError
            | Some t \<Rightarrow> tcons t (tokenize_go Normal s)))"
| "tokenize_go Escape [] = Inl SyntaxError"
| "tokenize_go Escape (c # s) =
     (if is_alnum c then Inl SyntaxError else tcons (TLit c) (tokenize_go Normal s))"
| "tokenize_go ClassStart [] = Inl SyntaxError"
| "tokenize_go ClassStart (c # s) =
     (if c = CHR ''^'' then tokenize_go (InClass True [] PNone) s
      else if c = CHR '']'' then tcons (TSet False []) (tokenize_go Normal s)
      else if c = bslash then Inl SyntaxError
      else tokenize_go (InClass False [] (PChar c)) s)"
| "tokenize_go (InClass neg rs p) [] = Inl SyntaxError"
| "tokenize_go (InClass neg rs p) (c # s) =
     (if c = CHR '']'' then tcons (TSet neg (close_class rs p)) (tokenize_go Normal s)
      else if c = bslash then Inl SyntaxError
      else (case p of
              PNone \<Rightarrow> tokenize_go (InClass neg rs (PChar c)) s
            | PChar a \<Rightarrow>
                if c = CHR ''-'' then tokenize_go (InClass neg rs (PDash a)) s
                else tokenize_go (InClass neg (rs @ [(a, a)]) (PChar c)) s
            | PDash a \<Rightarrow>
                if a \<le> c then tokenize_go (InClass neg (rs @ [(a, c)]) PNone) s
                else Inl SyntaxError))"

definition tokenize :: "string \<Rightarrow> error + tok list" where
  "tokenize s = tokenize_go Normal s"

text \<open>
  A frame of the stack is an open group: its number (0 for the whole pattern), the
  alternatives finished so far, and the items of the current alternative, last first.
\<close>

type_synonym frame = "nat \<times> re list \<times> re list"

fun alts :: "re list \<Rightarrow> re" where
  "alts [] = Eps"
| "alts [r] = r"
| "alts (r # rs) = Alt r (alts rs)"

definition close_frame :: "frame \<Rightarrow> re" where
  "close_frame f = (case f of (i, as, cur) \<Rightarrow> alts (as @ [seq (rev cur)]))"

fun quantifiable :: "re \<Rightarrow> bool" where
  "quantifiable Bol = False"
| "quantifiable Eol = False"
| "quantifiable r = True"

fun lazy :: "re \<Rightarrow> re option" where
  "lazy (Star True r) = Some (Star False r)"
| "lazy (Plus True r) = Some (Plus False r)"
| "lazy (Opt True r) = Some (Opt False r)"
| "lazy r = None"

definition quantify :: "tok \<Rightarrow> re \<Rightarrow> re" where
  "quantify t x = (if t = TStar then Star True x else if t = TPlus then Plus True x else Opt True x)"

definition atom_of :: "tok \<Rightarrow> re" where
  "atom_of t =
     (case t of
        TLit c \<Rightarrow> Lit c
      | TDot \<Rightarrow> Dot
      | TSet neg rs \<Rightarrow> CharSet neg rs
      | TBol \<Rightarrow> Bol
      | TEol \<Rightarrow> Eol
      | _ \<Rightarrow> Eps)"

definition is_quantifier :: "tok \<Rightarrow> bool" where
  "is_quantifier t = (t = TStar \<or> t = TPlus \<or> t = TQuest)"

fun parse_go :: "frame list \<Rightarrow> nat \<Rightarrow> bool \<Rightarrow> tok list \<Rightarrow> error + re" where
  "parse_go [] n q ts = Inl SyntaxError"
| "parse_go [f] n q [] = Inr (close_frame f)"
| "parse_go (f # g # fs) n q [] = Inl SyntaxError"
| "parse_go ((i, as, cur) # fs) n q (t # ts) =
     (if t = TOpen then parse_go ((Suc n, [], []) # (i, as, cur) # fs) (Suc n) False ts
      else if t = TClose then
        (case fs of
           [] \<Rightarrow> Inl SyntaxError
         | (j, bs, items) # fs' \<Rightarrow>
             parse_go ((j, bs, Grp i (close_frame (i, as, cur)) # items) # fs') n False ts)
      else if t = TBar then parse_go ((i, as @ [seq (rev cur)], []) # fs) n False ts
      else if is_quantifier t then
        (case cur of
           [] \<Rightarrow> Inl SyntaxError
         | x # cur' \<Rightarrow>
             if q then
               (if t = TQuest then
                  (case lazy x of
                     None \<Rightarrow> Inl SyntaxError
                   | Some y \<Rightarrow> parse_go ((i, as, y # cur') # fs) n False ts)
                else Inl SyntaxError)
             else if quantifiable x then parse_go ((i, as, quantify t x # cur') # fs) n True ts
             else Inl SyntaxError)
      else parse_go ((i, as, atom_of t # cur) # fs) n False ts)"

definition RegExp :: "string \<Rightarrow> error + regexp" where
  "RegExp s =
     (case tokenize s of
        Inl e \<Rightarrow> Inl e
      | Inr ts \<Rightarrow>
          (case parse_go [(0, [], [])] 0 False ts of
             Inl e \<Rightarrow> Inl e
           | Inr r \<Rightarrow> Inr \<lparr>pattern = r, ignoreCase = False\<rparr>))"


section \<open>The \<open>url\<close> module and \<open>decodeURI\<close>\<close>

text \<open>
  \<open>url.parse\<close> is the parser of Node's \<open>url\<close> module, which the extension
  bundles. The model follows its steps (protocol, slashes, host up to the first
  character that cannot be in a host, port, fragment, query, path, \<open>href\<close> put
  together again) for URLs without white space, backslashes and user information, whose
  host names need no correction and whose paths have none of the characters the module
  escapes. A field that the module leaves \<open>null\<close> is \<open>None\<close>.
\<close>

record Url =
  protocol :: "string option"
  slashes :: bool
  host :: "string option"
  port :: "string option"
  hostname :: "string option"
  hash :: "string option"
  search :: "string option"
  query :: "string option"
  pathname :: "string option"
  path :: "string option"
  href :: string

definition is_digit :: "char \<Rightarrow> bool" where
  "is_digit c = (CHR ''0'' \<le> c \<and> c \<le> CHR ''9'')"

definition proto_char :: "char \<Rightarrow> bool" where
  "proto_char c = (is_alnum c \<or> c = CHR ''.'' \<or> c = CHR ''+'' \<or> c = CHR ''-'')"

text \<open>\<open>protocolPattern = /^([a-z0-9.+-]+:)/i\<close>, the protocol in lower case.\<close>

definition split_proto :: "string \<Rightarrow> string option \<times> string" where
  "split_proto u =
     (let p = takeWhile proto_char u; r = dropWhile proto_char u
      in if p \<noteq> [] \<and> take 1 r = '':'' then (Some (toLowerCase p @ '':''), drop 1 r)
         else (None, u))"

definition hostlessProtocol :: "string option \<Rightarrow> bool" where
  "hostlessProtocol p = (p = Some ''javascript:'')"

definition slashedProtocol :: "string option \<Rightarrow> bool" where
  "slashedProtocol p =
     (p \<in> Some ` {''http:'', ''https:'', ''ftp:'', ''gopher:'', ''file:''})"

definition nonHostChars :: "char list" where
  "nonHostChars = ''<>\"` '' @ [CHR 0x0D, CHR 0x0A, CHR 0x09] @ ''{}|'' @ [bslash]
     @ ''^`'' @ [CHR 0x27] @ ''%/?;#''"

text \<open>\<open>parseHost\<close>: the port is what \<open>/:[0-9]*$/\<close> finds.\<close>

fun port_split :: "string \<Rightarrow> string \<times> string option" where
  "port_split [] = ([], None)"
| "port_split (c # s) =
     (if c = CHR '':'' \<and> list_all is_digit s then ([], Some s)
      else (case port_split s of (h, p) \<Rightarrow> (c # h, p)))"

definition nonempty :: "string \<Rightarrow> string option" where
  "nonempty s = (if s = [] then None else Some s)"

text \<open>\<open>v || ''\<close> for a string or \<open>null\<close>.\<close>

definition orEmpty :: "string option \<Rightarrow> string" where
  "orEmpty v = (case v of None \<Rightarrow> [] | Some s \<Rightarrow> s)"

text \<open>\<open>Url.prototype.format\<close> on the fields \<open>parse\<close> has set.\<close>

definition url_format :: "Url \<Rightarrow> string" where
  "url_format u =
     (let pr = orEmpty (protocol u);
          pn = orEmpty (pathname u);
          h = (case host u of None \<Rightarrow> None | Some x \<Rightarrow> nonempty x);
          dbl = (slashes u \<or> ((pr = [] \<or> slashedProtocol (Some pr)) \<and> h \<noteq> None));
          pn' = (if dbl \<and> pn \<noteq> [] \<and> take 1 pn \<noteq> ''/'' then ''/'' @ pn else pn)
      in pr @ (if dbl then ''//'' else []) @ orEmpty h @ pn' @ orEmpty (search u) @ orEmpty (hash u))"

definition url_parse :: "string \<Rightarrow> Url" where
  "url_parse u =
     (case split_proto u of (proto, rest1) \<Rightarrow>
      let sl = (proto \<noteq> None \<and> take 2 rest1 = ''//'' \<and> \<not> hostlessProtocol proto);
          rest2 = (if sl then drop 2 rest1 else rest1);
          hashost = (\<not> hostlessProtocol proto \<and> (sl \<or> (proto \<noteq> None \<and> \<not> slashedProtocol proto)));
          h0 = (if hashost then takeWhile (\<lambda>c. c \<notin> set nonHostChars) rest2 else []);
          rest3 = (if hashost then dropWhile (\<lambda>c. c \<notin> set nonHostChars) rest2 else rest2);
          hp = port_split h0;
          hn = toLowerCase (fst hp);
          prt = (case snd hp of None \<Rightarrow> None | Some d \<Rightarrow> nonempty d);
          hst = hn @ (case prt of None \<Rightarrow> [] | Some d \<Rightarrow> '':'' @ d);
          hsh = nonempty (dropWhile (\<lambda>c. c \<noteq> CHR ''#'') rest3);
          rest4 = takeWhile (\<lambda>c. c \<noteq> CHR ''#'') rest3;
          srch = nonempty (dropWhile (\<lambda>c. c \<noteq> CHR ''?'') rest4);
          rest5 = takeWhile (\<lambda>c. c \<noteq> CHR ''?'') rest4;
          pn = (if rest5 \<noteq> [] then Some rest5
                else if slashedProtocol proto \<and> hashost \<and> hn \<noteq> [] then Some ''/''
                else None);
          parsed = \<lparr>protocol = proto, slashes = sl,
                     host = (if hashost then Some hst else None),
                     port = prt,
                     hostname = (if hashost then Some hn else None),
                     hash = hsh, search = srch,
                     query = map_option (drop 1) srch,
                     pathname = pn,
                     path = (if pn \<noteq> None \<or> srch \<noteq> None then Some (orEmpty pn @ orEmpty srch) else None),
                     href = []\<rparr>
      in parsed\<lparr>href := url_format parsed\<rparr>)"

text \<open>
  \<open>decodeURI\<close> replaces an escape \<open>%XX\<close> by its character, but keeps the escapes of
  the reserved characters \<open>;/?:@&=+$,#\<close>, and throws a \<open>URIError\<close> on a \<open>%\<close> that
  is not followed by two hexadecimal digits. Escapes of bytes from 128 on (the UTF-8
  encoding of a character outside ASCII) are outside the model and reported as the
  same error.
\<close>

definition hexval :: "char \<Rightarrow> nat option" where
  "hexval c =
     (if is_digit c then Some (of_char c - 48)
      else if CHR ''a'' \<le> c \<and> c \<le> CHR ''f'' then Some (of_char c - 87)
      else if CHR ''A'' \<le> c \<and> c \<le> CHR ''F'' then Some (of_char c - 55)
      else None)"

definition scons :: "string \<Rightarrow> error + string \<Rightarrow> error + string" where
  "scons p r = (case r of Inl e \<Rightarrow> Inl e | Inr s \<Rightarrow> Inr (p @ s))"

fun decodeURI :: "string \<Rightarrow> error + string" where
  "decodeURI [] = Inr []"
| "decodeURI (c # s) =
     (if c \<noteq> CHR ''%'' then scons [c] (decodeURI s)
      else (case s of
              a # b # s' \<Rightarrow>
                (case (hexval a, hexval b) of
                   (Some x, Some y) \<Rightarrow>
                     if 16 * x + y \<ge> 128 then Inl URIError
                     else if char_of (16 * x + y) \<in> set '';/?:@&=+$,#''
                       then scons [c, a, b] (decodeURI s')
                     else scons [char_of (16 * x + y)] (decodeURI s')
                 | _ \<Rightarrow> Inl URIError)
            | _ \<Rightarrow> Inl URIError))"


section \<open>A proxy: \<open>Zotero.Proxy\<close>\<close>

text \<open>
  \<open>regexp\<close>, \<open>parameters\<close> and \<open>indices\<close> are the fields \<open>compileRegexp\<close>
  sets; \<open>regexp\<close> is \<open>None\<close> before it has run.
\<close>

record proxy =
  scheme :: string
  multiHost :: bool
  autoAssociate :: bool
  hosts :: "string list"
  regexp :: "regexp option"
  parameters :: "string list"
  indices :: "(string \<times> nat) list"

text \<open>
  The object \<open>Zotero_Proxy_schemeParameters\<close> as the file creates it. It is a
  variable of the state: \<open>compileRegexp\<close> binds \<open>parametersToCheck\<close> to this very
  object and assigns its property \<open>%h\<close>.
\<close>

type_synonym paramtable = "(string \<times> string) list"

definition Zotero_Proxy_schemeParameters :: paramtable where
  "Zotero_Proxy_schemeParameters =
     [(''%p'', ''(.*?)''), (''%d'', ''(.*?)''), (''%f'', ''(.*?)''), (''%a'', ''(.*?)'')]"

text \<open>The string that the literal \<open>"([a-zA-Z0-9]+\\.[a-zA-Z0-9\.]+)"\<close> denotes.\<close>

definition hostParameter :: string where
  "hostParameter = ''([a-zA-Z0-9]+'' @ [bslash] @ ''.[a-zA-Z0-9.]+)''"

text \<open>
  Modelled from the spec: \<open>Zotero.Utilities.quotemeta\<close> is not in \<open>proxy.js\<close>. The
  spec has the matcher built "by literal-escaping every other character of the
  template"; Zotero's function puts a backslash before each character that is special
  in a pattern, \<open>-[]{}()*+?.\^$|,#\<close>, and before white space.
\<close>

definition metachars :: "char list" where
  "metachars = ''-[]{}()*+?.'' @ [bslash] @ ''^$|,# '' @ [CHR 0x09, CHR 0x0A, CHR 0x0B, CHR 0x0C, CHR 0x0D]"

definition quotemeta :: "string \<Rightarrow> string" where
  "quotemeta s = concat (map (\<lambda>c. if c \<in> set metachars then [bslash, c] else [c]) s)"

text \<open>
  \<open>re.replace(Zotero_Proxy_schemeParameterRegexps[param], "$1" + fragment)\<close>: the
  pattern for \<open>param\<close> is \<open>/([^%])param/\<close>, so the first place where a character other
  than \<open>%\<close> is followed by the parameter keeps that character and gets the fragment
  for the parameter. No fragment of the table contains a \<open>$\<close>.
\<close>

fun replaceParam :: "string \<Rightarrow> string \<Rightarrow> string \<Rightarrow> string" where
  "replaceParam [] param frag = []"
| "replaceParam (c # s) param frag =
     (if c \<noteq> CHR ''%'' \<and> startsWith s param then c # frag @ drop (length param) s
      else c # replaceParam s param frag)"

definition charAt :: "string \<Rightarrow> int \<Rightarrow> char option" where
  "charAt s i = arr s i"

lemma find_sub_bound: "find_sub p s = Some i \<Longrightarrow> i \<le> length s"
  by (induction s arbitrary: i) (auto split: if_splits)

lemma indexOfFrom_range:
  "indexOfFrom s p k = - 1 \<or> (int k \<le> indexOfFrom s p k)"
  by (auto simp: indexOfFrom_def split: option.splits)

text \<open>
  The loop that skips escaped parameters:
  \<^verbatim>\<open>while(this.scheme[index-1] && (this.scheme[index-1] == "%")) {
    this.scheme = this.scheme.substr(0, index-1)+this.scheme.substr(index);
    index = this.scheme.indexOf(param, index+1);
  }\<close>
\<close>

function skipEscaped :: "string \<Rightarrow> string \<Rightarrow> int \<Rightarrow> string \<times> int" where
  "skipEscaped sch param index =
     (if charAt sch (index - 1) = Some CHR ''%''
      then (let sch' = substr2 sch 0 (index - 1) @ substr1 sch index
            in skipEscaped sch' param (indexOfFrom sch' param (nat (index + 1))))
      else (sch, index))"
  by pat_completeness auto
termination
proof (relation "measure (\<lambda>(sch, param, index). if index < 1 then 0 else Suc (length sch) - nat index)", goal_cases)
  case 1
  show ?case by simp
next
  case (2 sch param index sch')
  have idx: "1 \<le> index" "nat (index - 1) < length sch"
    using 2(1) by (auto simp: charAt_def arr_def split: if_splits)
  have len: "length sch' = length sch - 1"
    using idx 2(2) by (simp add: substr1_def substr2_def)
  consider "indexOfFrom sch' param (nat (index + 1)) = - 1"
    | "int (nat (index + 1)) \<le> indexOfFrom sch' param (nat (index + 1))"
    using indexOfFrom_range by blast
  then show ?case
  proof cases
    case 1
    with idx show ?thesis by simp
  next
    case 2
    with idx len show ?thesis by (simp split: if_splits)
  qed
qed

text \<open>One round of \<open>for(var param in parametersToCheck)\<close>.\<close>

definition checkParameter ::
  "string \<times> (string \<times> nat) list \<times> string list \<Rightarrow> string \<Rightarrow>
   string \<times> (string \<times> nat) list \<times> string list" where
  "checkParameter acc param =
     (case acc of (sch, ind, ps) \<Rightarrow>
        (case skipEscaped sch param (indexOf sch param) of (sch', index) \<Rightarrow>
           if index \<noteq> - 1 then (sch', AList.update param (nat index) ind, ps @ [param])
           else (sch', ind, ps)))"

definition indexOfParam :: "(string \<times> nat) list \<Rightarrow> string \<Rightarrow> nat" where
  "indexOfParam ind param = (case map_of ind param of None \<Rightarrow> 0 | Some i \<Rightarrow> i)"

definition fragmentOf :: "paramtable \<Rightarrow> string \<Rightarrow> string" where
  "fragmentOf table param = str_undefined (map_of table param)"

text \<open>
  \<open>compileRegexp\<close> on the table it finds: the table and the proxy it leaves, or the
  error of \<open>new RegExp\<close>.
\<close>

definition compileRegexp :: "paramtable \<Rightarrow> proxy \<Rightarrow> error + paramtable \<times> proxy" where
  "compileRegexp table p =
     (let parametersToCheck =
            (if multiHost p then AList.update ''%h'' hostParameter table else table)
      in case foldl checkParameter (scheme p, [], []) (map fst parametersToCheck) of
           (sch, ind, ps) \<Rightarrow>
             let sorted = sort_key (indexOfParam ind) ps;
                 re = foldl (\<lambda>re param. replaceParam re param (fragmentOf parametersToCheck param))
                        (''^'' @ quotemeta sch @ ''$'') (rev sorted)
             in (case RegExp re of
                   Inl e \<Rightarrow> Inl e
                 | Inr rx \<Rightarrow>
                     Inr (parametersToCheck,
                          p\<lparr>scheme := sch, indices := ind, parameters := sorted,
                            regexp := Some rx\<rparr>)))"

text \<open>\<open>new Zotero.Proxy\<close> and \<open>loadFromJSON\<close>.\<close>

definition newProxy :: proxy where
  "newProxy = \<lparr>scheme = [], multiHost = False, autoAssociate = False, hosts = [],
                regexp = None, parameters = [], indices = []\<rparr>"

record stored =
  stored_multiHost :: bool
  stored_autoAssociate :: bool
  stored_scheme :: string
  stored_hosts :: "string list"

definition loadFromJSON :: "paramtable \<Rightarrow> stored \<Rightarrow> error + paramtable \<times> proxy" where
  "loadFromJSON table json =
     compileRegexp table
       (newProxy\<lparr>multiHost := stored_multiHost json, autoAssociate := stored_autoAssociate json,
                 scheme := stored_scheme json, hosts := stored_hosts json\<rparr>)"

text \<open>
  \<open>toProper\<close>, called with the match of the proxy's own \<open>regexp\<close>.
  \<open>this.indices["%p"]\<close> is a condition: an index 0 counts as absent.
\<close>

definition paramGroup :: "proxy \<Rightarrow> string \<Rightarrow> int" where
  "paramGroup p param = arrayIndexOf (parameters p) param + 1"

definition matchText :: "matcharray \<Rightarrow> int \<Rightarrow> string option" where
  "matchText m i = (case arr m i of None \<Rightarrow> None | Some v \<Rightarrow> v)"

definition toProper :: "proxy \<Rightarrow> matcharray \<Rightarrow> string" where
  "toProper p m =
     (let properURL =
            (if multiHost p then ''http://'' @ str_undefined (matchText m (paramGroup p ''%h'')) @ ''/''
             else ''http://'' @ str_undefined (arr (hosts p) 0) @ ''/'')
      in if (case map_of (indices p) ''%p'' of None \<Rightarrow> False | Some i \<Rightarrow> i \<noteq> 0)
         then properURL @ str_undefined (matchText m (paramGroup p ''%p''))
         else (let dir = matchText m (paramGroup p ''%d'');
                   file = matchText m (paramGroup p ''%f'')
               in (if dir \<noteq> Some [] then properURL @ str_undefined dir @ ''/'' else properURL)
                  @ str_undefined file))"

text \<open>\<open>toProxy\<close>: a \<open>TypeError\<close> where \<open>uri.path\<close> is \<open>null\<close> and a method of it is
  called, or where the proxy has no \<open>parameters\<close> yet.\<close>

definition paramValue :: "string \<Rightarrow> Url \<Rightarrow> error + string" where
  "paramValue param uri =
     (if param = ''%h'' then Inr (str_null (host uri))
      else if param = ''%p'' then
        (case path uri of None \<Rightarrow> Inl TypeError | Some pa \<Rightarrow> Inr (substr1 pa 1))
      else if param = ''%d'' then
        (case path uri of None \<Rightarrow> Inl TypeError
         | Some pa \<Rightarrow> Inr (substr2 pa 0 (lastIndexOfChar pa CHR ''/'')))
      else if param = ''%f'' then
        (case path uri of None \<Rightarrow> Inl TypeError
         | Some pa \<Rightarrow> Inr (substr1 pa (lastIndexOfChar pa CHR ''/'' + 1)))
      else Inr [])"

definition substitute :: "proxy \<Rightarrow> Url \<Rightarrow> error + string \<Rightarrow> string \<Rightarrow> error + string" where
  "substitute p uri acc param =
     (case acc of
        Inl e \<Rightarrow> Inl e
      | Inr proxyURL \<Rightarrow>
          (case paramValue param uri of
             Inl e \<Rightarrow> Inl e
           | Inr v \<Rightarrow>
               Inr (substr2 proxyURL 0 (int (indexOfParam (indices p) param)) @ v
                    @ substr1 proxyURL (int (indexOfParam (indices p) param) + 2))))"

definition toProxy :: "proxy \<Rightarrow> Url \<Rightarrow> error + string" where
  "toProxy p uri =
     (if regexp p = None then Inl TypeError
      else foldl (substitute p uri) (Inr (scheme p)) (rev (parameters p)))"


section \<open>The registry: \<open>Zotero.Proxies\<close>\<close>

text \<open>
  Proxies are objects, compared by identity and changed in place while the list
  \<open>proxies\<close> and the object \<open>hosts\<close> refer to them. The state therefore holds a heap
  of proxies under references; \<open>proxies\<close> is a list of references and \<open>hosts\<close>
  (here \<open>Proxies_hosts\<close>, since a proxy has a field \<open>hosts\<close> too) maps a host to a
  reference, its keys in the order of insertion. The state also holds the table
  \<open>Zotero_Proxy_schemeParameters\<close>, the set \<open>_ignoreURLs\<close>, the requests sent by
  \<open>XMLHttpRequest\<close>, the preference \<open>proxies.proxies\<close> and the settings \<open>init\<close> reads.

  \<open>hosts\<close> is a plain object (\<open>this.hosts = {}\<close>): \<open>Proxies_hosts\<close> holds its own
  properties, and a read \<open>hosts[host]\<close> also finds what the object inherits from
  \<open>Object.prototype\<close>. The assignment \<open>hosts['__proto__'] = proxy\<close> adds no property: it
  makes the proxy the prototype of \<open>hosts\<close>. That prototype is not part of the state,
  so what \<open>hosts\<close> inherits after such an assignment is outside the model.
\<close>

type_synonym ref = nat

type_synonym headers = "string \<Rightarrow> string option"

record Proxies =
  proxies :: "ref list"
  heap :: "ref \<Rightarrow> proxy"
  nextRef :: ref
  Proxies_hosts :: "(string \<times> ref) list"
  schemeParameters :: paramtable
  ignoreURLs :: "string list"
  xhrSent :: "string list"
  prefs :: "stored list"
  reqIDToHeaders :: "string \<Rightarrow> headers option"
  autoRecognize :: bool
  disabledByDomain :: bool
  showRedirectNotification :: bool

definition initialProxies :: Proxies where
  "initialProxies =
     \<lparr>proxies = [], heap = (\<lambda>r. newProxy), nextRef = 0, Proxies_hosts = [],
      schemeParameters = Zotero_Proxy_schemeParameters, ignoreURLs = [], xhrSent = [],
      prefs = [], reqIDToHeaders = (\<lambda>k. None), autoRecognize = True,
      disabledByDomain = False, showRedirectNotification = False\<rparr>"

text \<open>\<open>new Zotero.Proxy\<close> with the fields a detector assigns.\<close>

definition alloc :: "Proxies \<Rightarrow> proxy \<Rightarrow> Proxies \<times> ref" where
  "alloc st p = (st\<lparr>heap := (heap st)(nextRef st := p), nextRef := Suc (nextRef st)\<rparr>, nextRef st)"

definition compileRef :: "Proxies \<Rightarrow> ref \<Rightarrow> error + Proxies" where
  "compileRef st r =
     (case compileRegexp (schemeParameters st) (heap st r) of
        Inl e \<Rightarrow> Inl e
      | Inr (table, p) \<Rightarrow> Inr (st\<lparr>schemeParameters := table, heap := (heap st)(r := p)\<rparr>))"

definition toStored :: "proxy \<Rightarrow> stored" where
  "toStored p =
     \<lparr>stored_multiHost = multiHost p, stored_autoAssociate = autoAssociate p,
      stored_scheme = scheme p, stored_hosts = hosts p\<rparr>"

text \<open>
  The names of the properties of \<open>Object.prototype\<close>, and the value of \<open>hosts[host]\<close>:
  \<open>undefined\<close>, a proxy of the registry, or an inherited function or object.
\<close>

definition objectPrototypeKeys :: "string list" where
  "objectPrototypeKeys =
     [''constructor'', ''__defineGetter__'', ''__defineSetter__'', ''hasOwnProperty'',
      ''__lookupGetter__'', ''__lookupSetter__'', ''isPrototypeOf'', ''propertyIsEnumerable'',
      ''toString'', ''valueOf'', ''__proto__'', ''toLocaleString'']"

datatype hostsValue = Undefined | Own ref | Inherited

definition hostsGet :: "Proxies \<Rightarrow> string \<Rightarrow> hostsValue" where
  "hostsGet st h =
     (case map_of (Proxies_hosts st) h of
        Some r \<Rightarrow> Own r
      | None \<Rightarrow> if h \<in> set objectPrototypeKeys then Inherited else Undefined)"

text \<open>
  The two loops of \<open>save\<close> over the hosts: \<open>for (let host in hosts)\<close> goes through the
  own properties (those of \<open>Object.prototype\<close> are not enumerable), and
  \<open>hosts[host] = proxy\<close> sets a property unless the host is \<open>__proto__\<close>.
\<close>

definition setHost :: "ref \<Rightarrow> (string \<times> ref) list \<Rightarrow> string \<Rightarrow> (string \<times> ref) list" where
  "setHost r idx h = (if h = ''__proto__'' then idx else AList.update h r idx)"

definition dropStale :: "ref \<Rightarrow> string list \<Rightarrow> (string \<times> ref) list \<Rightarrow> string \<Rightarrow> (string \<times> ref) list" where
  "dropStale r hs idx h =
     (if map_of idx h = Some r \<and> arrayIndexOf hs h = - 1 then AList.delete h idx else idx)"

definition save :: "Proxies \<Rightarrow> ref \<Rightarrow> error + Proxies" where
  "save st r =
     (let st1 = (if arrayIndexOf (proxies st) r = - 1 then st\<lparr>proxies := proxies st @ [r]\<rparr> else st)
      in case (if regexp (heap st1 r) = None then compileRef st1 r else Inr st1) of
           Inl e \<Rightarrow> Inl e
         | Inr st2 \<Rightarrow>
             let hs = hosts (heap st2 r);
                 idx1 = foldl (dropStale r hs) (Proxies_hosts st2) (map fst (Proxies_hosts st2));
                 idx2 = foldl (setHost r) idx1 hs
             in Inr (st2\<lparr>Proxies_hosts := idx2,
                         prefs := map (\<lambda>q. toStored (heap st2 q)) (proxies st2)\<rparr>))"

text \<open>A string or \<open>false\<close>, and its use as a condition.\<close>

datatype strOrFalse = Str string | JSFalse

fun truthy :: "strOrFalse \<Rightarrow> bool" where
  "truthy (Str s) = (s \<noteq> [])"
| "truthy JSFalse = False"

fun firstMatch :: "(ref \<Rightarrow> proxy) \<Rightarrow> ref list \<Rightarrow> string \<Rightarrow> (ref \<times> matcharray) option" where
  "firstMatch h [] URL = None"
| "firstMatch h (r # rs) URL =
     (case regexp (h r) of
        None \<Rightarrow> firstMatch h rs URL
      | Some rx \<Rightarrow>
          (case exec rx URL of
             None \<Rightarrow> firstMatch h rs URL
           | Some m \<Rightarrow> Some (r, m)))"

definition proxyToProper :: "Proxies \<Rightarrow> string \<Rightarrow> bool \<Rightarrow> strOrFalse" where
  "proxyToProper st URL onlyReturnIfProxied =
     (case firstMatch (heap st) (proxies st) URL of
        Some (r, m) \<Rightarrow> Str (toProper (heap st r) m)
      | None \<Rightarrow> (if onlyReturnIfProxied then JSFalse else Str URL))"

definition properToProxy :: "Proxies \<Rightarrow> string \<Rightarrow> bool \<Rightarrow> error + strOrFalse" where
  "properToProxy st URL onlyReturnIfProxied =
     (let uri = url_parse URL
      in case hostsGet st (str_null (host uri)) of
           Own r \<Rightarrow>
             (case toProxy (heap st r) uri of Inl e \<Rightarrow> Inl e | Inr u \<Rightarrow> Inr (Str u))
         | Inherited \<Rightarrow> Inl TypeError
         | Undefined \<Rightarrow> Inr (if onlyReturnIfProxied then JSFalse else Str URL))"

subsection \<open>\<open>_isBlacklisted\<close>\<close>

definition literalRe :: "re list \<Rightarrow> regexp" where
  "literalRe items = \<lparr>pattern = seq items, ignoreCase = False\<rparr>"

definition hostBlacklist :: "regexp list" where
  "hostBlacklist =
     [literalRe (lits ''edu'' @ [Eol]),
      literalRe (lits ''google.com'' @ [Eol]),
      literalRe (lits ''wikipedia.org'' @ [Eol]),
      literalRe [Bol, Star True (CharSet True [(CHR ''.'', CHR ''.'')]), Eol],
      literalRe (lits ''doubleclick.net'' @ [Eol])]"

definition hostWhitelist :: "regexp list" where
  "hostWhitelist =
     [literalRe (Bol # lits ''scholar.google.com'' @ [Eol]),
      literalRe (Bol # lits ''muse.jhu.edu'' @ [Eol])]"

fun whiteLoop :: "regexp list \<Rightarrow> string \<Rightarrow> bool" where
  "whiteLoop [] hst = True"
| "whiteLoop (whitePattern # ws) hst =
     (if test whitePattern hst then False else whiteLoop ws hst)"

fun blackLoop :: "regexp list \<Rightarrow> string \<Rightarrow> bool" where
  "blackLoop [] hst = False"
| "blackLoop (blackPattern # bs) hst =
     (if test blackPattern hst then whiteLoop hostWhitelist hst else blackLoop bs hst)"

definition isBlacklisted :: "string \<Rightarrow> bool" where
  "isBlacklisted hst = blackLoop hostBlacklist hst"

subsection \<open>\<open>_maybeRedirect\<close>\<close>

record details =
  url :: string
  statusCode :: int
  requestID :: "string option"
  requestHeaders :: "headers option"
  responseHeaders :: "headers option"
  originUrl :: "string option"

datatype verdict = NoRedirect | Redirect string

text \<open>\<open>top2DomainsRe = /[^\.]+\.[^\.]+$/\<close>\<close>

definition top2DomainsRe :: regexp where
  "top2DomainsRe =
     literalRe [Plus True (CharSet True [(CHR ''.'', CHR ''.'')]), Lit CHR ''.'',
         Plus True (CharSet True [(CHR ''.'', CHR ''.'')]), Eol]"

definition nonemptyString :: "string option \<Rightarrow> bool" where
  "nonemptyString v = (case v of None \<Rightarrow> False | Some s \<Rightarrow> s \<noteq> [])"

text \<open>The last guard and the redirect.\<close>

definition top2Guard :: "details \<Rightarrow> string \<Rightarrow> verdict" where
  "top2Guard d proxied =
     (case exec top2DomainsRe (str_null (hostname (url_parse (url d)))) of
        None \<Rightarrow> NoRedirect
      | Some top21 \<Rightarrow>
          (case exec top2DomainsRe (str_null (hostname (url_parse proxied))) of
             None \<Rightarrow> NoRedirect
           | Some top22 \<Rightarrow>
               if matchText top21 0 = matchText top22 0 then NoRedirect else Redirect proxied))"

definition originGuard :: "Proxies \<Rightarrow> details \<Rightarrow> string \<Rightarrow> verdict" where
  "originGuard st d proxied =
     (case originUrl d of
        None \<Rightarrow> top2Guard d proxied
      | Some origin \<Rightarrow>
          if origin = [] then top2Guard d proxied
          else if truthy (proxyToProper st origin True) then NoRedirect
          else if hostname (url_parse origin) = hostname (url_parse proxied) then NoRedirect
          else top2Guard d proxied)"

definition maybeRedirect :: "Proxies \<Rightarrow> details \<Rightarrow> string \<Rightarrow> error + verdict" where
  "maybeRedirect st d proxied =
     (case requestHeaders d of
        None \<Rightarrow> Inl TypeError
      | Some hs \<Rightarrow>
          (case hs ''referer'' of
             None \<Rightarrow> Inr (originGuard st d proxied)
           | Some referer \<Rightarrow>
               if referer = [] then Inr (originGuard st d proxied)
               else (case properToProxy st referer True of
                       Inl e \<Rightarrow> Inl e
                     | Inr v \<Rightarrow>
                         if truthy v then Inr NoRedirect
                         else if hostname (url_parse referer) = hostname (url_parse proxied)
                           then Inr NoRedirect
                         else Inr (originGuard st d proxied))))"


subsection \<open>\<open>observe\<close>: association of a host with a known proxy\<close>

text \<open>
  The first multi-host proxy whose \<open>regexp\<close> matches the URL of the request, and the
  block that adds the host of the match to it. The headers of \<open>details\<close> are the
  objects \<open>_processHeaders\<close> makes, names in lower case.
\<close>

fun knownProxy :: "(ref \<Rightarrow> proxy) \<Rightarrow> ref list \<Rightarrow> string \<Rightarrow> (ref \<times> matcharray) option" where
  "knownProxy h [] requestURL = None"
| "knownProxy h (r # rs) requestURL =
     (case regexp (h r) of
        None \<Rightarrow> knownProxy h rs requestURL
      | Some rx \<Rightarrow>
          if multiHost (h r) then
            (case exec rx requestURL of
               None \<Rightarrow> knownProxy h rs requestURL
             | Some m \<Rightarrow> Some (r, m))
          else knownProxy h rs requestURL)"

definition associate :: "Proxies \<Rightarrow> details \<Rightarrow> ref \<Rightarrow> matcharray \<Rightarrow> error + Proxies" where
  "associate st d r m =
     (let p = heap st r;
          hst = str_undefined (matchText m (paramGroup p ''%h''))
      in if autoAssociate p
            \<and> statusCode d < 400
            \<and> hostsGet st hst = Undefined
            \<and> arrayIndexOf (hosts p) hst = - 1
            \<and> \<not> isBlacklisted hst
         then save (st\<lparr>heap := (heap st)(r := p\<lparr>hosts := hosts p @ [hst]\<rparr>)\<rparr>) r
         else Inr st)"

section \<open>Detectors\<close>

text \<open>
  \<open>[80, 443].indexOf(uri.port)\<close> compares numbers with the string (or \<open>null\<close>) that
  \<open>url.parse\<close> gives for the port, by strict equality.
\<close>

datatype jsval = JNull | JStr string | JNum int

definition portVal :: "string option \<Rightarrow> jsval" where
  "portVal v = (case v of None \<Rightarrow> JNull | Some s \<Rightarrow> JStr s)"

definition otherPort :: "jsval list \<Rightarrow> string option \<Rightarrow> bool" where
  "otherPort standard prt = (\<not> nonemptyString prt \<or> arrayIndexOf standard (portVal prt) = - 1)"

text \<open>\<open>url.parse(headers[name])\<close> throws when there are no headers or no such header.\<close>

definition parseHeader :: "headers option \<Rightarrow> string \<Rightarrow> error + Url" where
  "parseHeader hs name =
     (case hs of
        None \<Rightarrow> Inl TypeError
      | Some h \<Rightarrow> (case h name of None \<Rightarrow> Inl TypeError | Some v \<Rightarrow> Inr (url_parse v)))"

definition headerValue :: "headers option \<Rightarrow> string \<Rightarrow> string option" where
  "headerValue hs name = (case hs of None \<Rightarrow> None | Some h \<Rightarrow> h name)"

text \<open>\<open>s.replace(pat, rep)\<close> for strings: the first occurrence.\<close>

fun replaceFirst :: "string \<Rightarrow> string \<Rightarrow> string \<Rightarrow> string" where
  "replaceFirst [] pat rep = (if pat = [] then rep else [])"
| "replaceFirst (c # s) pat rep =
     (if startsWith (c # s) pat then rep @ drop (length pat) (c # s)
      else c # replaceFirst s pat rep)"

text \<open>\<open>/(url|qurl)=([^&]+)/i\<close>\<close>

definition queryRe :: regexp where
  "queryRe =
     \<lparr>pattern = seq [Grp 1 (Alt (seq (lits ''url'')) (seq (lits ''qurl''))), Lit CHR ''='',
                      Grp 2 (Plus True (CharSet True [(CHR ''&'', CHR ''&'')]))],
      ignoreCase = True\<rparr>"

definition learn :: "Proxies \<Rightarrow> Url \<Rightarrow> Url \<Rightarrow> error + proxy option" where
  "learn st loginURI proxiedURI =
     (case exec queryRe (str_null (query loginURI)) of
        None \<Rightarrow> Inr None
      | Some m \<Rightarrow>
          if truthy (proxyToProper st (href proxiedURI) True) then Inr None
          else
            (case (if toLowerCase (str_undefined (matchText m 1)) = ''qurl''
                   then decodeURI (str_undefined (matchText m 2))
                   else Inr (str_undefined (matchText m 2))) of
               Inl e \<Rightarrow> Inl e
             | Inr properURL \<Rightarrow>
                 let properURI = url_parse properURL
                 in if \<not> nonemptyString (protocol properURI) then Inr None
                    else if hostname loginURI = hostname proxiedURI
                            \<and> otherPort [portVal (port loginURI), JNum 80, JNum 443] (port proxiedURI)
                    then Inr (Some (newProxy
                           \<lparr>multiHost := False,
                            scheme := str_null (protocol proxiedURI) @ ''//''
                                      @ str_null (host proxiedURI) @ ''/%p'',
                            hosts := [str_null (host properURI)]\<rparr>))
                    else if hostname proxiedURI \<noteq> hostname loginURI
                    then (case host proxiedURI of
                            None \<Rightarrow> Inl TypeError
                          | Some ph \<Rightarrow>
                              if indexOf ph (str_null (hostname properURI)) \<noteq> - 1
                              then Inr (Some (newProxy
                                     \<lparr>multiHost := True, autoAssociate := True,
                                      scheme := str_null (protocol proxiedURI) @ ''//''
                                                @ replaceFirst ph (str_null (hostname properURI)) ''%h''
                                                @ ''/%p'',
                                      hosts := [str_null (host properURI)]\<rparr>))
                              else Inr None)
                    else Inr None))"

text \<open>
  The first half of the detector: a link or redirect from one proxied port to another,
  for which it registers a \<open>Listener\<close> and sends a request. The result says whether
  the detector has returned (\<open>false\<close>) here. \<open>toURI\<close> and \<open>fromURI\<close> are the
  variables \<open>toProxy\<close> and \<open>fromProxy\<close> of the detector.
\<close>

definition linkEnds :: "details \<Rightarrow> Url \<Rightarrow> Url option \<times> Url option" where
  "linkEnds d uri =
     (if statusCode d \<in> {301, 302, 303} then
        (case parseHeader (responseHeaders d) ''location'' of
           Inl e \<Rightarrow> (None, None)
         | Inr u \<Rightarrow> (Some u, Some uri))
      else
        (Some uri,
         (case parseHeader (responseHeaders d) ''referer'' of
            Inl e \<Rightarrow> None
          | Inr u \<Rightarrow> Some u)))"

definition portLink :: "Proxies \<Rightarrow> details \<Rightarrow> Proxies \<times> bool" where
  "portLink st d =
     (let uri = url_parse (url d)
      in if otherPort [JNum 80, JNum 443] (port uri) then
           (case linkEnds d uri of
              (Some toURI, Some fromURI) \<Rightarrow>
                if hostname fromURI = hostname toURI \<and> port fromURI \<noteq> port toURI
                   \<and> otherPort [JNum 80, JNum 443] (port toURI)
                then (case firstMatch (heap st) (proxies st) (href fromURI) of
                        None \<Rightarrow> (st, False)
                      | Some (r, m) \<Rightarrow>
                          if multiHost (heap st r) \<or> truthy (proxyToProper st (href toURI) True)
                          then (st, True)
                          else (st\<lparr>ignoreURLs := ignoreURLs st @ [href toURI],
                                    xhrSent := xhrSent st @ [href toURI]\<rparr>, True))
                else (st, False)
            | _ \<Rightarrow> (st, False))
         else (st, False))"

definition EZProxy :: "Proxies \<Rightarrow> details \<Rightarrow> error + Proxies \<times> proxy option" where
  "EZProxy st d =
     (case portLink st d of
        (st', True) \<Rightarrow> Inr (st', None)
      | (st', False) \<Rightarrow>
          (case parseHeader (responseHeaders d) ''location'' of
             Inl e \<Rightarrow> Inr (st', None)
           | Inr proxiedURI \<Rightarrow>
               if \<not> nonemptyString (protocol proxiedURI) \<or> statusCode d \<noteq> 302
                  \<or> headerValue (responseHeaders d) ''server'' \<noteq> Some ''EZproxy''
               then Inr (st', None)
               else (case learn st' (url_parse (url d)) proxiedURI of
                       Inl e \<Rightarrow> Inl e
                     | Inr v \<Rightarrow> Inr (st', v))))"

text \<open>
  \<open>juniperRe =
  /^(https?:\/\/[^\/:]+(?:\:[0-9]+)?)\/(.*),DanaInfo=([^+,]*)([^+]*)(?:\+(.*))?$/\<close>
\<close>

definition juniperRe :: regexp where
  "juniperRe =
     literalRe [Bol,
         Grp 1 (seq (lits ''http'' @ [Opt True (Lit CHR ''s'')] @ lits ''://''
                     @ [Plus True (CharSet True [(CHR ''/'', CHR ''/''), (CHR '':'', CHR '':'')]),
                        Opt True (Cat (Lit CHR '':'') (Plus True (CharSet False [(CHR ''0'', CHR ''9'')])))])),
         Lit CHR ''/'',
         Grp 2 (Star True Dot),
         seq (lits '',DanaInfo=''),
         Grp 3 (Star True (CharSet True [(CHR ''+'', CHR ''+''), (CHR '','', CHR '','')])),
         Grp 4 (Star True (CharSet True [(CHR ''+'', CHR ''+'')])),
         Opt True (Cat (Lit CHR ''+'') (Grp 5 (Star True Dot))),
         Eol]"

definition Juniper :: "details \<Rightarrow> proxy option" where
  "Juniper d =
     (case exec juniperRe (url d) of
        None \<Rightarrow> None
      | Some m \<Rightarrow>
          Some (newProxy
            \<lparr>multiHost := True, autoAssociate := False,
             scheme := str_undefined (matchText m 1) @ ''/%d'' @ '',DanaInfo=%h%a+%f'',
             hosts := [str_undefined (matchText m 3)]\<rparr>))"

text \<open>
  The function \<open>observe\<close> defers: each detector of \<open>Zotero.Proxies.Detectors\<close> in
  turn, an exception of a detector logged and taken for no proxy, the first proxy
  detected saved.
\<close>

definition saveNew :: "Proxies \<Rightarrow> proxy \<Rightarrow> error + Proxies" where
  "saveNew st p = (case alloc st p of (st', r) \<Rightarrow> save st' r)"

definition detect :: "Proxies \<Rightarrow> details \<Rightarrow> error + Proxies" where
  "detect st d =
     (case (case EZProxy st d of Inl e \<Rightarrow> (st, None) | Inr res \<Rightarrow> res) of
        (st', Some p) \<Rightarrow> saveNew st' p
      | (st', None) \<Rightarrow>
          (case Juniper d of
             Some p \<Rightarrow> saveNew st' p
           | None \<Rightarrow> Inr st'))"

subsection \<open>\<open>observe\<close>\<close>

text \<open>
  What \<open>observe\<close> does before it returns: the state it leaves, whether it has deferred
  the detectors, and its verdict.
\<close>

definition redirectStep :: "Proxies \<Rightarrow> details \<Rightarrow> error + verdict" where
  "redirectStep st d =
     (if disabledByDomain st then Inr NoRedirect
      else (case properToProxy st (url d) True of
              Inl e \<Rightarrow> Inl e
            | Inr v \<Rightarrow>
                (case v of
                   JSFalse \<Rightarrow> Inr NoRedirect
                 | Str proxied \<Rightarrow>
                     if proxied = [] then Inr NoRedirect
                     else maybeRedirect st
                            (d\<lparr>requestHeaders := reqIDToHeaders st (str_undefined (requestID d))\<rparr>)
                            proxied)))"

definition observe :: "Proxies \<Rightarrow> details \<Rightarrow> error + Proxies \<times> bool \<times> verdict" where
  "observe st d =
     (if url d \<in> set (ignoreURLs st) \<or> statusCode d \<ge> 400 then Inr (st, False, NoRedirect)
      else (case (case knownProxy (heap st) (proxies st) (url d) of
                    Some (r, m) \<Rightarrow>
                      (case associate st d r m of Inl e \<Rightarrow> Inl e | Inr st' \<Rightarrow> Inr (st', False))
                  | None \<Rightarrow> Inr (st, autoRecognize st)) of
              Inl e \<Rightarrow> Inl e
            | Inr (st', deferred) \<Rightarrow>
                (case redirectStep st' d of
                   Inl e \<Rightarrow> Inl e
                 | Inr v \<Rightarrow> Inr (st', deferred, v))))"

subsection \<open>The listener of the request without cookies\<close>

text \<open>
  \<open>onBeforeSendHeaders\<close> keeps the headers for which
  \<open>header.name.toLowerCase != 'cookie'\<close>. The left side is the property
  \<open>toLowerCase\<close> of a string, a function that is not called; \<open>!=\<close> compares it with
  the string by its source text.
\<close>

record header =
  header_name :: string
  header_value :: string

datatype jsobj = JString string | JFunction string

definition functionSource :: "string \<Rightarrow> string" where
  "functionSource f = ''function '' @ f @ ''() { [native code] }''"

fun looseNotEqual :: "jsobj \<Rightarrow> jsobj \<Rightarrow> bool" where
  "looseNotEqual (JString a) (JString b) = (a \<noteq> b)"
| "looseNotEqual (JFunction f) (JString b) = (functionSource f \<noteq> b)"
| "looseNotEqual (JString a) (JFunction g) = (a \<noteq> functionSource g)"
| "looseNotEqual (JFunction f) (JFunction g) = (f \<noteq> g)"

definition String_toLowerCase :: "string \<Rightarrow> jsobj" where
  "String_toLowerCase s = JFunction ''toLowerCase''"

definition onBeforeSendHeaders :: "header list \<Rightarrow> header list" where
  "onBeforeSendHeaders hs =
     filter (\<lambda>h. looseNotEqual (String_toLowerCase (header_name h)) (JString ''cookie'')) hs"


section \<open>The host blacklist\<close>

lemma whiteLoop_ex: "whiteLoop ws h = (\<not> list_ex (\<lambda>w. test w h) ws)"
  by (induction ws) auto

lemma blackLoop_ex:
  "blackLoop bs h = (list_ex (\<lambda>b. test b h) bs \<and> whiteLoop hostWhitelist h)"
  by (induction bs) auto

lemma blacklisted_math: "isBlacklisted ''math.google.com''"
  by code_simp

lemma not_blacklisted_scholar: "\<not> isBlacklisted ''scholar.google.com''"
  by code_simp

lemma blacklisted_single_label: "isBlacklisted ''onecompany''"
  by code_simp

text \<open>
  C8. \<open>_isBlacklisted\<close> is true for \<open>math.google.com\<close>, false for
  \<open>scholar.google.com\<close> and true for the single label \<open>onecompany\<close>; and the white
  list always overrides the black list: a host is blacklisted exactly when a pattern of
  the black list matches it and no pattern of the white list does.
\<close>

theorem isBlacklisted_examples:
  "isBlacklisted ''math.google.com''
   \<and> \<not> isBlacklisted ''scholar.google.com''
   \<and> isBlacklisted ''onecompany''
   \<and> isBlacklisted h =
       (list_ex (\<lambda>b. test b h) hostBlacklist \<and> \<not> list_ex (\<lambda>w. test w h) hostWhitelist)"
  using blacklisted_math not_blacklisted_scholar blacklisted_single_label
  by (simp add: isBlacklisted_def blackLoop_ex whiteLoop_ex)

section \<open>The request without cookies\<close>

lemma onBeforeSendHeaders_keeps_all: "onBeforeSendHeaders hs = hs"
  by (simp add: onBeforeSendHeaders_def String_toLowerCase_def functionSource_def)

text \<open>
  C9. The claim is that the handler returns the headers without any header named
  \<open>cookie\<close>. The handler compares the function \<open>toLowerCase\<close>, not its result, with
  \<open>'cookie'\<close>, so it keeps the header \<open>Cookie\<close> of this request.
\<close>

theorem onBeforeSendHeaders_keeps_cookie:
  "onBeforeSendHeaders
     [\<lparr>header_name = ''Cookie'', header_value = ''ezproxyn=abc''\<rparr>,
      \<lparr>header_name = ''Accept'', header_value = ''*/*''\<rparr>]
   = [\<lparr>header_name = ''Cookie'', header_value = ''ezproxyn=abc''\<rparr>,
      \<lparr>header_name = ''Accept'', header_value = ''*/*''\<rparr>]"
  by (simp add: onBeforeSendHeaders_keeps_all)

section \<open>The parameters of a compiled proxy\<close>

definition hostProxy :: proxy where
  "hostProxy = newProxy\<lparr>scheme := ''https://%h.proxy.example.com/%p'', multiHost := True\<rparr>"

definition singleProxy :: proxy where
  "singleProxy =
     newProxy\<lparr>scheme := ''https://%h.proxy.example.com/%p'', multiHost := False,
              hosts := [''journal.example.org'']\<rparr>"

definition parametersOf :: "error + paramtable \<times> proxy \<Rightarrow> error + string list" where
  "parametersOf res = (case res of Inl e \<Rightarrow> Inl e | Inr (table, p) \<Rightarrow> Inr (parameters p))"

definition compileAfter :: "proxy \<Rightarrow> proxy \<Rightarrow> error + paramtable \<times> proxy" where
  "compileAfter p q =
     (case compileRegexp Zotero_Proxy_schemeParameters p of
        Inl e \<Rightarrow> Inl e
      | Inr (table, p') \<Rightarrow> compileRegexp table q)"

text \<open>
  C7. The claim is that a proxy compiled with \<open>multiHost = false\<close> never has \<open>%h\<close>
  among its parameters, whatever was compiled before. On the table as the file creates
  it this proxy gets the parameter \<open>%p\<close> only; compiled after a multi-host proxy, which
  has left \<open>%h\<close> in the table, it gets \<open>%h\<close> as well.
\<close>

theorem compileRegexp_host_parameter_stays:
  "parametersOf (compileRegexp Zotero_Proxy_schemeParameters singleProxy) = Inr [''%p'']
   \<and> parametersOf (compileAfter hostProxy singleProxy) = Inr [''%h'', ''%p'']"
  by code_simp

section \<open>The guards of \<open>_maybeRedirect\<close>\<close>

subsection \<open>A class of characters, repeated\<close>

text \<open>
  The equations of the matcher are used one at a time: the one for \<open>r*\<close> is
  recursive.
\<close>

declare ms.simps [simp del]

lemma set_one_char:
  "set (one_char P (pos, s, caps)) = (case s of [] \<Rightarrow> {} | x # xs \<Rightarrow> if P x then {(Suc pos, xs, caps)} else {})"
  by (simp add: one_char_def split: list.splits)

lemma star_char:
  assumes r: "\<And>st. ms ci r st = one_char P st"
  shows "set (ms ci (Star g r) (pos, s, caps))
         = (\<lambda>k. (pos + k, drop k s, caps)) ` {k. k \<le> length (takeWhile P s)}"
proof (induction s arbitrary: pos)
  case Nil
  show ?case by (subst ms.simps(10)) (simp add: r one_char_def Let_def)
next
  case (Cons x xs)
  show ?case
  proof (cases "P x")
    case False
    then show ?thesis by (subst ms.simps(10)) (simp add: r one_char_def Let_def)
  next
    case True
    have "set (ms ci (Star g r) (pos, x # xs, caps))
          = insert (pos, x # xs, caps) (set (ms ci (Star g r) (Suc pos, xs, caps)))"
      using True by (subst ms.simps(10)) (auto simp: r one_char_def Let_def progress_def)
    also have "\<dots> = (\<lambda>k. (pos + k, drop k (x # xs), caps)) ` {k. k \<le> length (takeWhile P (x # xs))}"
    proof -
      have "{k. k \<le> Suc n} = insert 0 (Suc ` {k. k \<le> n})" for n :: nat
        by (auto simp: image_iff) (metis Suc_le_mono not0_implies_Suc)
      then show ?thesis using True by (simp add: Cons.IH image_image)
    qed
    finally show ?thesis .
  qed
qed

lemma plus_char:
  assumes r: "\<And>st. ms ci r st = one_char P st"
  shows "set (ms ci (Plus g r) (pos, s, caps))
         = (\<lambda>k. (pos + k, drop k s, caps)) ` {k. 1 \<le> k \<and> k \<le> length (takeWhile P s)}"
proof (cases s)
  case Nil
  then show ?thesis by (auto simp: r one_char_def ms.simps(11))
next
  case (Cons x xs)
  show ?thesis
  proof (cases "P x")
    case False
    then show ?thesis using Cons by (auto simp: r one_char_def ms.simps(11))
  next
    case True
    have "{k. 1 \<le> k \<and> k \<le> Suc n} = Suc ` {k. k \<le> n}" for n :: nat
      by (auto simp: image_iff) (metis Suc_le_mono not0_implies_Suc le_zero_eq)
    then show ?thesis using True Cons
      by (simp add: r one_char_def star_char[OF r] image_image ms.simps(11))
  qed
qed

subsection \<open>What \<open>top2DomainsRe\<close> finds\<close>

definition dotfree :: "string \<Rightarrow> bool" where
  "dotfree s = (CHR ''.'' \<notin> set s)"

definition notDot :: re where
  "notDot = CharSet True [(CHR ''.'', CHR ''.'')]"

lemma notDot_char: "ms False notDot st = one_char (\<lambda>c. c \<noteq> CHR ''.'') st"
proof -
  have "set_match False True [(CHR ''.'', CHR ''.'')] = (\<lambda>c. c \<noteq> CHR ''.'')"
    by (auto simp: set_match_def in_ranges_def fun_eq_iff)
  then show ?thesis by (simp add: notDot_def ms.simps(4))
qed

lemma takeWhile_all: "length (takeWhile P s) = length s \<longleftrightarrow> (\<forall>x\<in>set s. P x)"
  by (induction s) auto

lemma label_end:
  "set (ms False (Cat (Plus True notDot) Eol) (pos, s, caps))
   = (if s \<noteq> [] \<and> dotfree s then {(pos + length s, [], caps)} else {})"
proof -
  have "set (ms False (Cat (Plus True notDot) Eol) (pos, s, caps))
        = {(pos + k, drop k s, caps) | k. 1 \<le> k \<and> k \<le> length (takeWhile (\<lambda>c. c \<noteq> CHR ''.'') s) \<and> drop k s = []}"
    by (auto simp: ms.simps(6,7) plus_char[OF notDot_char])
  also have "\<dots> = (if s \<noteq> [] \<and> dotfree s then {(pos + length s, [], caps)} else {})"
  proof (cases "s \<noteq> [] \<and> dotfree s")
    case True
    then have "length (takeWhile (\<lambda>c. c \<noteq> CHR ''.'') s) = length s"
      by (auto simp: takeWhile_all dotfree_def)
    with True show ?thesis by (auto simp: Suc_le_eq)
  next
    case False
    have "k \<le> length (takeWhile (\<lambda>c. c \<noteq> CHR ''.'') s) \<Longrightarrow> drop k s = [] \<Longrightarrow> dotfree s" for k
      using takeWhile_all[of "\<lambda>c. c \<noteq> CHR ''.''" s] length_takeWhile_le[of "\<lambda>c. c \<noteq> CHR ''.''" s]
      by (auto simp: dotfree_def)
    with False show ?thesis by auto
  qed
  finally show ?thesis .
qed


definition top2pat :: re where
  "top2pat = Cat (Plus True notDot) (Cat (Lit CHR ''.'') (Cat (Plus True notDot) Eol))"

definition good :: "string \<Rightarrow> bool" where
  "good s =
     (takeWhile (\<lambda>c. c \<noteq> CHR ''.'') s \<noteq> []
      \<and> (case dropWhile (\<lambda>c. c \<noteq> CHR ''.'') s of [] \<Rightarrow> False | d # b \<Rightarrow> b \<noteq> [] \<and> dotfree b))"

lemma dot_label_end:
  "set (ms False (Cat (Lit CHR ''.'') (Cat (Plus True notDot) Eol)) (pos, s, caps))
   = (case s of [] \<Rightarrow> {}
      | d # b \<Rightarrow> if d = CHR ''.'' \<and> b \<noteq> [] \<and> dotfree b then {(pos + length s, [], caps)} else {})"
proof -
  have "set (ms False (Cat (Lit CHR ''.'') r) (pos, s, caps))
        = (case s of [] \<Rightarrow> {} | d # b \<Rightarrow> if d = CHR ''.'' then set (ms False r (Suc pos, b, caps)) else {})" for r
    by (simp add: ms.simps(2,7) one_char_def lit_match_def split: list.splits)
  then show ?thesis by (simp add: label_end split: list.splits)
qed


abbreviation nonDot :: "char \<Rightarrow> bool" where "nonDot \<equiv> (\<lambda>c. c \<noteq> CHR ''.'')"
abbreviation dotLabel :: re where "dotLabel \<equiv> Cat (Lit CHR ''.'') (Cat (Plus True notDot) Eol)"

lemma top2_parts: "set (ms False top2pat (pos, s, caps))
        = (\<Union>k\<in>{k. 1 \<le> k \<and> k \<le> length (takeWhile nonDot s)}. set (ms False dotLabel (pos + k, drop k s, caps)))"
    by (simp add: top2pat_def ms.simps(7) plus_char[OF notDot_char])

lemma top2_early: "set (ms False dotLabel (pos + k, drop k s, caps)) = {}" if "k < length (takeWhile nonDot s)" for k
  proof -
    have "k < length s" using that length_takeWhile_le[of nonDot s] by simp
    then have d: "drop k s = s ! k # drop (Suc k) s" by (simp add: Cons_nth_drop_Suc)
    have "takeWhile nonDot s ! k \<in> set (takeWhile nonDot s)" using that by simp
    then have "nonDot (takeWhile nonDot s ! k)" by (rule set_takeWhileD[THEN conjunct2])
    then have "s ! k \<noteq> CHR ''.''" using that by (simp add: takeWhile_nth)
    then show ?thesis by (simp add: dot_label_end d)
  qed


lemma top2_last: "set (ms False dotLabel (pos + length (takeWhile nonDot s), drop (length (takeWhile nonDot s)) s, caps))
        = (case dropWhile nonDot s of [] \<Rightarrow> {}
           | d # b \<Rightarrow> if b \<noteq> [] \<and> dotfree b then {(pos + length s, [], caps)} else {})"
proof -
  have dw: "drop (length (takeWhile nonDot s)) s = dropWhile nonDot s" by (simp add: dropWhile_eq_drop)
  have len: "length (takeWhile nonDot s) + length (dropWhile nonDot s) = length s"
    by (metis length_append takeWhile_dropWhile_id)
  show ?thesis
  proof (cases "dropWhile nonDot s")
    case Nil
    show ?thesis unfolding dw Nil by (simp add: dot_label_end)
  next
    case (Cons d b)
    then have d: "d = CHR ''.''" using hd_dropWhile[of nonDot s] by auto
    have "length (takeWhile nonDot s) + Suc (length b) = length s" using len unfolding Cons by simp
    then show ?thesis unfolding dw Cons by (simp add: dot_label_end d add.assoc)
  qed
qed


lemma top2_at:
  "set (ms False top2pat (pos, s, caps)) = (if good s then {(pos + length s, [], caps)} else {})"
proof (cases "length (takeWhile nonDot s) = 0")
  case True
  then show ?thesis by (simp add: top2_parts good_def)
next
  case False
  have "{k. 1 \<le> k \<and> k \<le> length (takeWhile nonDot s)}
        = insert (length (takeWhile nonDot s)) {k. 1 \<le> k \<and> k < length (takeWhile nonDot s)}"
    using False by (auto simp: Suc_le_eq)
  then have "set (ms False top2pat (pos, s, caps))
             = set (ms False dotLabel (pos + length (takeWhile nonDot s), drop (length (takeWhile nonDot s)) s, caps))"
    unfolding top2_parts by (simp add: top2_early)
  moreover have "good s = (case dropWhile nonDot s of [] \<Rightarrow> False | d # b \<Rightarrow> b \<noteq> [] \<and> dotfree b)"
    using False unfolding good_def by simp
  ultimately show ?thesis unfolding top2_last by (cases "dropWhile nonDot s") simp_all
qed


lemma top2_pattern: "pattern top2DomainsRe = top2pat"
  by (simp add: top2DomainsRe_def literalRe_def top2pat_def notDot_def)

lemma top2_flag: "ignoreCase top2DomainsRe = False"
  by (simp add: top2DomainsRe_def literalRe_def)

lemma top2_ngroups: "ngroups top2pat = 0"
  by (simp add: top2pat_def notDot_def)

lemma top2_match_at: "match_at top2DomainsRe pos s = (if good s then Some [Some s] else None)"
proof (cases "good s")
  case False
  then have "ms False top2pat (pos, s, []) = []" using top2_at[of pos s "[]"] by simp
  then show ?thesis using False by (simp add: match_at_def top2_pattern top2_flag)
next
  case True
  then have st: "set (ms False top2pat (pos, s, [])) = {(pos + length s, [], [])}"
    using top2_at[of pos s "[]"] by simp
  then obtain x xs where ms: "ms False top2pat (pos, s, []) = x # xs"
    by (cases "ms False top2pat (pos, s, [])") auto
  with st have "x = (pos + length s, [], [])" by auto
  with ms True show ?thesis
    by (simp add: match_at_def top2_pattern top2_flag top2_ngroups)
qed

fun firstGood :: "string \<Rightarrow> string option" where
  "firstGood [] = None"
| "firstGood (c # s) = (if good (c # s) then Some (c # s) else firstGood s)"

lemma good_Nil: "\<not> good []"
  by (simp add: good_def)

lemma top2_exec_from: "exec_from top2DomainsRe pos s = map_option (\<lambda>t. [Some t]) (firstGood s)"
  by (induction s arbitrary: pos) (simp_all add: top2_match_at good_Nil)

lemma top2_exec: "exec top2DomainsRe s = map_option (\<lambda>t. [Some t]) (firstGood s)"
  by (simp add: exec_def top2_exec_from)


text \<open>
  The words of the specification: the dot-separated labels of a host name, and the last
  two of them (all of them when there are fewer).
\<close>

fun labels :: "string \<Rightarrow> string list" where
  "labels [] = [[]]"
| "labels (c # s) =
     (if c = CHR ''.'' then [] # labels s
      else (let ls = labels s in (c # hd ls) # tl ls))"

lemma labels_Cons:
  "labels (c # s) =
     (if c = CHR ''.'' then [] # labels s else (c # hd (labels s)) # tl (labels s))"
  by (simp add: Let_def)

declare labels.simps(2) [simp del] labels_Cons [simp]

definition lastTwoLabels :: "string \<Rightarrow> string list" where
  "lastTwoLabels h = drop (length (labels h) - 2) (labels h)"

definition goodLabels :: "string list \<Rightarrow> bool" where
  "goodLabels ls = (case ls of [a, b] \<Rightarrow> a \<noteq> [] \<and> b \<noteq> [] | _ \<Rightarrow> False)"

lemma labels_nonempty: "labels s \<noteq> []"
  by (induction s) simp_all

lemma labels_single: "labels s = [x] \<longleftrightarrow> dotfree s \<and> x = s"
proof (induction s arbitrary: x)
  case Nil
  show ?case by (auto simp: dotfree_def)
next
  case (Cons c s)
  show ?case
  proof (cases "c = CHR ''.''")
    case True
    then show ?thesis by (simp add: dotfree_def labels_nonempty)
  next
    case False
    have "labels s = [hd (labels s)] \<longleftrightarrow> tl (labels s) = []"
      using labels_nonempty[of s] by (cases "labels s") auto
    with False Cons.IH[of "hd (labels s)"] Cons.IH[of s] show ?thesis
      by (auto simp: dotfree_def)
  qed
qed

lemma labels_tl:
  "tl (labels s) = (case dropWhile nonDot s of [] \<Rightarrow> [] | d # b \<Rightarrow> labels b)"
  by (induction s) simp_all

lemma labels_hd: "hd (labels s) = takeWhile nonDot s"
  by (induction s) simp_all


lemma labels_join: "labels s = [a, b] \<Longrightarrow> s = a @ CHR ''.'' # b"
proof (induction s arbitrary: a)
  case Nil
  then show ?case by simp
next
  case (Cons c s)
  show ?case
  proof (cases "c = CHR ''.''")
    case True
    with Cons.prems show ?thesis by (simp add: labels_single)
  next
    case False
    with Cons.prems have "tl (labels s) = [b]" "a = c # hd (labels s)" by auto
    then have "labels s = [hd (labels s), b]"
      using labels_nonempty[of s] by (cases "labels s") auto
    with Cons.IH \<open>a = c # hd (labels s)\<close> show ?thesis by simp
  qed
qed

lemma good_labels: "good s = goodLabels (labels s)"
proof -
  obtain l ls where ls: "labels s = l # ls" using labels_nonempty by (cases "labels s") auto
  have hd: "takeWhile nonDot s = l" using labels_hd[of s] ls by simp
  have tl: "ls = (case dropWhile nonDot s of [] \<Rightarrow> [] | d # b \<Rightarrow> labels b)"
    using labels_tl[of s] ls by simp
  have g: "good s = (l \<noteq> [] \<and> (case dropWhile nonDot s of [] \<Rightarrow> False | d # b \<Rightarrow> b \<noteq> [] \<and> dotfree b))"
    unfolding good_def hd ..
  show ?thesis
  proof (cases "dropWhile nonDot s")
    case Nil
    have "ls = []" using tl unfolding Nil by simp
    then show ?thesis unfolding g Nil ls goodLabels_def by simp
  next
    case (Cons d b)
    have lb: "ls = labels b" using tl unfolding Cons by simp
    show ?thesis
    proof (cases "dotfree b")
      case True
      then have "labels b = [b]" by (simp add: labels_single)
      then show ?thesis using True unfolding g Cons ls lb goodLabels_def by simp
    next
      case False
      then have "\<not> (\<exists>x. labels b = [x])" by (simp add: labels_single)
      then have "goodLabels (l # labels b) = False"
        unfolding goodLabels_def by (cases "labels b"; cases "tl (labels b)") auto
      then show ?thesis using False unfolding g Cons ls lb by simp
    qed
  qed
qed


definition top2Text :: "string list \<Rightarrow> string option" where
  "top2Text ls = (if goodLabels ls then Some (hd ls @ CHR ''.'' # hd (tl ls)) else None)"

lemma goodLabels_length: "goodLabels ls \<Longrightarrow> length ls = 2"
  unfolding goodLabels_def by (cases ls; cases "tl ls"; cases "tl (tl ls)") auto

lemma goodLabels_pair: "goodLabels [a, b] = (a \<noteq> [] \<and> b \<noteq> [])"
  by (simp add: goodLabels_def)

lemma lastTwoLabels_short: "length (labels h) \<le> 2 \<Longrightarrow> lastTwoLabels h = labels h"
  by (simp add: lastTwoLabels_def)

lemma lastTwoLabels_Cons:
  assumes "3 \<le> length (labels (c # s))"
  shows "lastTwoLabels (c # s) = lastTwoLabels s"
proof (cases "c = CHR ''.''")
  case True
  with assms have "2 \<le> length (labels s)" by simp
  then have "length (labels s) - 1 = Suc (length (labels s) - 2)" by simp
  with True show ?thesis by (simp add: lastTwoLabels_def)
next
  case False
  obtain l ls where L: "labels s = l # ls" using labels_nonempty by (cases "labels s") auto
  with assms False have "2 \<le> length ls" by simp
  then have "length ls - 1 = Suc (length ls - 2)" by simp
  with False L show ?thesis by (simp add: lastTwoLabels_def)
qed

lemma firstGood_labels: "firstGood h = top2Text (lastTwoLabels h)"
proof (induction h)
  case Nil
  show ?case by (simp add: lastTwoLabels_def top2Text_def goodLabels_def)
next
  case (Cons c s)
  consider (long) "3 \<le> length (labels (c # s))" | (short) "length (labels (c # s)) \<le> 2"
    by linarith
  then show ?case
  proof cases
    case long
    then have "\<not> goodLabels (labels (c # s))" using goodLabels_length by fastforce
    then have "firstGood (c # s) = firstGood s" by (simp add: good_labels)
    with Cons.IH lastTwoLabels_Cons[OF long] show ?thesis by simp
  next
    case short
    then have l2: "lastTwoLabels (c # s) = labels (c # s)" by (rule lastTwoLabels_short)
    show ?thesis
    proof (cases "goodLabels (labels (c # s))")
      case True
      then have "length (labels (c # s)) = 2" by (rule goodLabels_length)
      then obtain a b where ab: "labels (c # s) = [a, b]"
        by (cases "labels (c # s)"; cases "tl (labels (c # s))") auto
      have fg: "firstGood (c # s) = Some (c # s)"
        using True by (simp add: good_labels del: labels.simps)
      have "top2Text (lastTwoLabels (c # s)) = Some (a @ CHR ''.'' # b)"
        unfolding l2 ab using True[unfolded ab] by (simp add: top2Text_def)
      with fg labels_join[OF ab] show ?thesis by simp
    next
      case False
      then have fg: "firstGood (c # s) = firstGood s" by (simp add: good_labels)
      have short': "length (labels s) \<le> 2" using short by (simp split: if_splits)
      have "\<not> goodLabels (labels s)"
      proof
        assume g: "goodLabels (labels s)"
        then have "length (labels s) = 2" by (rule goodLabels_length)
        then obtain a b where ab: "labels s = [a, b]"
          by (cases "labels s"; cases "tl (labels s)") auto
        with short have "c \<noteq> CHR ''.''" by auto
        with ab have "labels (c # s) = [c # a, b]" by simp
        with False g ab show False by (simp add: goodLabels_pair)
      qed
      with fg Cons.IH False show ?thesis
        by (simp add: l2 lastTwoLabels_short[OF short'] top2Text_def del: labels.simps)
    qed
  qed
qed

lemma top2_exec_labels:
  "exec top2DomainsRe h = map_option (\<lambda>t. [Some t]) (top2Text (lastTwoLabels h))"
  by (simp add: top2_exec firstGood_labels)

lemma top2_single_label: "length (labels h) < 2 \<Longrightarrow> exec top2DomainsRe h = None"
proof -
  assume short: "length (labels h) < 2"
  then have "lastTwoLabels h = labels h" by (simp add: lastTwoLabels_short)
  moreover have "\<not> goodLabels (labels h)" using short goodLabels_length by fastforce
  ultimately show ?thesis by (simp add: top2_exec_labels top2Text_def)
qed

subsection \<open>The decision\<close>

lemma originGuard_Redirect:
  "originGuard st d proxied = Redirect u \<Longrightarrow> top2Guard d proxied = Redirect u"
  unfolding originGuard_def by (simp split: option.splits if_splits)

lemma maybeRedirect_Redirect_guard:
  assumes "maybeRedirect st d proxied = Inr (Redirect u)"
  shows "top2Guard d proxied = Redirect u"
proof -
  have "originGuard st d proxied = Redirect u"
    using assms unfolding maybeRedirect_def
    by (simp split: option.splits if_splits sum.splits)
  then show ?thesis by (rule originGuard_Redirect)
qed

lemma maybeRedirect_Redirect_referer:
  assumes "maybeRedirect st d proxied = Inr (Redirect u)"
    and "requestHeaders d = Some hs" and "hs ''referer'' = Some r" and "r \<noteq> []"
  shows "hostname (url_parse r) \<noteq> hostname (url_parse proxied)"
  using assms unfolding maybeRedirect_def
  by (simp split: sum.splits if_splits)


lemma top2Guard_None:
  assumes "exec top2DomainsRe (str_null (hostname (url_parse (url d)))) = None
           \<or> exec top2DomainsRe (str_null (hostname (url_parse proxied))) = None"
  shows "top2Guard d proxied = NoRedirect"
  using assms unfolding top2Guard_def by (auto split: option.splits)

lemma top2Guard_same:
  assumes "lastTwoLabels (str_null (hostname (url_parse (url d))))
           = lastTwoLabels (str_null (hostname (url_parse proxied)))"
  shows "top2Guard d proxied = NoRedirect"
  unfolding top2Guard_def top2_exec_labels assms by (simp split: option.splits)

lemma not_Redirect_cases:
  assumes "\<And>u. v \<noteq> Inr (Redirect u)"
  shows "v = Inr NoRedirect \<or> (\<exists>e :: error. v = Inl e)"
proof (cases v)
  case (Inl e)
  then show ?thesis by simp
next
  case (Inr w)
  with assms show ?thesis by (cases w) auto
qed

text \<open>
  C2. When the request has a referrer whose host name is the host name of the candidate
  target, or when the last two dot-separated labels of the host name of the request are
  those of the candidate target, \<open>_maybeRedirect\<close> never returns a redirect: it
  returns nothing (\<open>NoRedirect\<close>), or it throws and the request goes on unredirected
  (no headers were stored for the request, or \<open>toProxy\<close> throws on the referrer).
\<close>

theorem maybeRedirect_same_host:
  assumes "(\<exists>hs r. requestHeaders d = Some hs \<and> hs ''referer'' = Some r \<and> r \<noteq> []
              \<and> hostname (url_parse r) = hostname (url_parse proxied))
           \<or> lastTwoLabels (str_null (hostname (url_parse (url d))))
              = lastTwoLabels (str_null (hostname (url_parse proxied)))"
  shows "(\<forall>u. maybeRedirect st d proxied \<noteq> Inr (Redirect u))
         \<and> (maybeRedirect st d proxied = Inr NoRedirect \<or> (\<exists>e. maybeRedirect st d proxied = Inl e))"
proof -
  have never: "maybeRedirect st d proxied \<noteq> Inr (Redirect u)" for u
  proof
    assume r: "maybeRedirect st d proxied = Inr (Redirect u)"
    from assms show False
    proof
      assume "\<exists>hs r. requestHeaders d = Some hs \<and> hs ''referer'' = Some r \<and> r \<noteq> []
                \<and> hostname (url_parse r) = hostname (url_parse proxied)"
      with maybeRedirect_Redirect_referer[OF r] show False by blast
    next
      assume "lastTwoLabels (str_null (hostname (url_parse (url d))))
                = lastTwoLabels (str_null (hostname (url_parse proxied)))"
      then have "top2Guard d proxied = NoRedirect" by (rule top2Guard_same)
      with maybeRedirect_Redirect_guard[OF r] show False by simp
    qed
  qed
  with not_Redirect_cases[of "maybeRedirect st d proxied"] show ?thesis by blast
qed

definition campusRequest :: details where
  "campusRequest =
     \<lparr>url = ''http://www.gmu.edu/library'', statusCode = 200, requestID = None,
      requestHeaders = Some (\<lambda>name. None), responseHeaders = Some (\<lambda>name. None),
      originUrl = None\<rparr>"

definition campusProxied :: string where
  "campusProxied = ''http://www.gmu.edu.mutex.gmu.edu/library''"

lemma campusRequest_labels:
  "lastTwoLabels (str_null (hostname (url_parse (url campusRequest)))) = [''gmu'', ''edu'']"
  by code_simp

lemma campusProxied_labels:
  "lastTwoLabels (str_null (hostname (url_parse campusProxied))) = [''gmu'', ''edu'']"
  by code_simp

lemma campusRequest_returns: "\<not> isl (maybeRedirect initialProxies campusRequest campusProxied)"
  by code_simp

theorem maybeRedirect_same_host_witness:
  "lastTwoLabels (str_null (hostname (url_parse (url campusRequest))))
     = lastTwoLabels (str_null (hostname (url_parse campusProxied)))
   \<and> maybeRedirect initialProxies campusRequest campusProxied = Inr NoRedirect"
proof -
  have same: "lastTwoLabels (str_null (hostname (url_parse (url campusRequest))))
     = lastTwoLabels (str_null (hostname (url_parse campusProxied)))"
    by (simp add: campusRequest_labels campusProxied_labels)
  from maybeRedirect_same_host[OF disjI2[OF same], of initialProxies] campusRequest_returns
  have "maybeRedirect initialProxies campusRequest campusProxied = Inr NoRedirect" by auto
  with same show ?thesis by simp
qed

text \<open>
  C10. When the host name of the request or that of the candidate target has fewer than
  two dot-separated labels, or \<open>top2DomainsRe\<close> does not match it for another reason,
  the last guard returns \<open>NoRedirect\<close>, and \<open>_maybeRedirect\<close> does not return a
  redirect.
\<close>

theorem top2Guard_single_label:
  assumes "length (labels (str_null (hostname (url_parse (url d))))) < 2
           \<or> length (labels (str_null (hostname (url_parse proxied)))) < 2
           \<or> exec top2DomainsRe (str_null (hostname (url_parse (url d)))) = None
           \<or> exec top2DomainsRe (str_null (hostname (url_parse proxied))) = None"
  shows "top2Guard d proxied = NoRedirect
         \<and> (\<forall>u. maybeRedirect st d proxied \<noteq> Inr (Redirect u))"
proof -
  from assms have "exec top2DomainsRe (str_null (hostname (url_parse (url d)))) = None
           \<or> exec top2DomainsRe (str_null (hostname (url_parse proxied))) = None"
    by (elim disjE) (simp_all add: top2_single_label)
  then have g: "top2Guard d proxied = NoRedirect" by (rule top2Guard_None)
  have "maybeRedirect st d proxied \<noteq> Inr (Redirect u)" for u
    using maybeRedirect_Redirect_guard[of st d proxied u] g by auto
  with g show ?thesis by simp
qed

definition intranetRequest :: details where
  "intranetRequest =
     \<lparr>url = ''http://intranet/wiki'', statusCode = 200, requestID = None,
      requestHeaders = Some (\<lambda>name. None), responseHeaders = Some (\<lambda>name. None),
      originUrl = None\<rparr>"

lemma intranet_labels: "labels (str_null (hostname (url_parse (url intranetRequest)))) = [''intranet'']"
  by code_simp

theorem top2Guard_single_label_witness:
  "length (labels (str_null (hostname (url_parse (url intranetRequest))))) < 2
   \<and> top2Guard intranetRequest ''http://intranet.proxy.example.com/wiki'' = NoRedirect
   \<and> maybeRedirect initialProxies intranetRequest ''http://intranet.proxy.example.com/wiki''
       \<noteq> Inr (Redirect ''http://intranet.proxy.example.com/wiki'')"
proof -
  have short: "length (labels (str_null (hostname (url_parse (url intranetRequest))))) < 2"
    by (simp add: intranet_labels)
  from top2Guard_single_label[OF disjI1[OF short], of "''http://intranet.proxy.example.com/wiki''" initialProxies] short
  show ?thesis by blast
qed

section \<open>\<open>toProper\<close> on a match\<close>

text \<open>
  A proxy as a template gives it, compiled on the table as the file creates it: the
  match of its \<open>regexp\<close> on a URL, and the proper URL \<open>toProper\<close> makes of the match.
\<close>

definition matchOf :: "proxy \<Rightarrow> string \<Rightarrow> error + matcharray option" where
  "matchOf p URL =
     (case compileRegexp Zotero_Proxy_schemeParameters p of
        Inl e \<Rightarrow> Inl e
      | Inr (table, q) \<Rightarrow>
          Inr (case regexp q of None \<Rightarrow> None | Some rx \<Rightarrow> exec rx URL))"

definition canonical :: "proxy \<Rightarrow> string \<Rightarrow> error + string option" where
  "canonical p URL =
     (case compileRegexp Zotero_Proxy_schemeParameters p of
        Inl e \<Rightarrow> Inl e
      | Inr (table, q) \<Rightarrow>
          Inr (case regexp q of None \<Rightarrow> None | Some rx \<Rightarrow> map_option (toProper q) (exec rx URL)))"

definition canonicalStartsWith :: "error + string option \<Rightarrow> string \<Rightarrow> bool" where
  "canonicalStartsWith res prefix =
     (case res of Inr (Some u) \<Rightarrow> startsWith u prefix | _ \<Rightarrow> False)"

definition anythingProxy :: proxy where
  "anythingProxy = newProxy\<lparr>scheme := ''https://%h.proxy.example.com/%a'', multiHost := True\<rparr>"

definition pathProxy :: proxy where
  "pathProxy = newProxy\<lparr>scheme := ''https://%h.proxy.example.com/%p'', multiHost := True\<rparr>"

definition abstractURL :: string where
  "abstractURL = ''https://journal.example.org.proxy.example.com/abstract''"

text \<open>
  C5, as stated: with the template \<open>https://%h.proxy.example.com/%a\<close> the proper URL of
  \<open>https://journal.example.org.proxy.example.com/abstract\<close> would be
  \<open>http://journal.example.org/abstract\<close>. It is not: \<open>toProper\<close> takes the path from
  \<open>%p\<close>, or from \<open>%d\<close> and \<open>%f\<close>, never from \<open>%a\<close>.
\<close>

theorem toProper_anything_counterexample:
  "canonical anythingProxy abstractURL \<noteq> Inr (Some ''http://journal.example.org/abstract'')"
  by code_simp

text \<open>
  C5, amended. With that template the URL matches, with \<open>journal.example.org\<close> for
  \<open>%h\<close> and \<open>abstract\<close> for \<open>%a\<close>, and the proper URL starts with the host of the
  match, \<open>http://journal.example.org/\<close>. With \<open>%p\<close> in the place of \<open>%a\<close> the proper
  URL is \<open>http://journal.example.org/abstract\<close>.
\<close>

theorem toProper_host_first:
  "matchOf anythingProxy abstractURL
     = Inr (Some [Some abstractURL, Some ''journal.example.org'', Some ''abstract''])
   \<and> canonicalStartsWith (canonical anythingProxy abstractURL) ''http://journal.example.org/''
   \<and> canonical pathProxy abstractURL = Inr (Some ''http://journal.example.org/abstract'')"
  by code_simp

section \<open>The index of hosts\<close>

text \<open>
  The invariant of the specification: every host that a proxy of the registry lists is
  indexed to that proxy, and every host of the index is listed by a proxy of the
  registry.
\<close>

definition hostIndexInv :: "Proxies \<Rightarrow> bool" where
  "hostIndexInv st =
     ((\<forall>r\<in>set (proxies st). \<forall>h\<in>set (hosts (heap st r)). map_of (Proxies_hosts st) h = Some r)
      \<and> (\<forall>h\<in>fst ` set (Proxies_hosts st). \<exists>r\<in>set (proxies st). h \<in> set (hosts (heap st r))))"

lemma arrayIndexOf_ge: "- 1 \<le> arrayIndexOf xs x"
  by (induction xs) (auto simp: Let_def)

lemma arrayIndexOf_absent: "arrayIndexOf xs x = - 1 \<longleftrightarrow> x \<notin> set xs"
proof (induction xs)
  case Nil
  show ?case by simp
next
  case (Cons y ys)
  with arrayIndexOf_ge[of ys x] show ?case by (auto simp: Let_def)
qed

lemma map_of_dropStale1:
  "map_of (dropStale r hs idx k) h =
     (if h = k \<and> map_of idx k = Some r \<and> k \<notin> set hs then None else map_of idx h)"
  by (simp add: dropStale_def arrayIndexOf_absent delete_conv')

lemma map_of_dropStale:
  "map_of (foldl (dropStale r hs) idx ks) h =
     (if h \<in> set ks \<and> map_of idx h = Some r \<and> h \<notin> set hs then None else map_of idx h)"
proof (induction ks arbitrary: idx)
  case Nil
  show ?case by simp
next
  case (Cons k ks)
  show ?case by (auto simp: Cons.IH map_of_dropStale1)
qed

lemma map_of_index_hosts:
  "map_of (foldl (setHost r) idx hs) h =
     (if h \<in> set hs \<and> h \<noteq> ''__proto__'' then Some r else map_of idx h)"
  by (induction hs arbitrary: idx) (auto simp: setHost_def update_conv')

lemma compileRegexp_hosts:
  "compileRegexp table p = Inr (table', q) \<Longrightarrow> hosts q = hosts p"
  unfolding compileRegexp_def Let_def
  by (auto split: prod.splits sum.splits)


lemma compileRef_frame:
  assumes "compileRef st r = Inr st'"
  shows "proxies st' = proxies st" and "Proxies_hosts st' = Proxies_hosts st"
    and "hosts (heap st' r) = hosts (heap st r)" and "\<And>q. q \<noteq> r \<Longrightarrow> heap st' q = heap st q"
  using assms compileRegexp_hosts[of "schemeParameters st" "heap st r"]
  unfolding compileRef_def by (auto split: sum.splits prod.splits)

lemma save_compiled:
  assumes "save st r = Inr st'"
  obtains st2 where
    "proxies st2 = (if r \<in> set (proxies st) then proxies st else proxies st @ [r])"
    "Proxies_hosts st2 = Proxies_hosts st"
    "hosts (heap st2 r) = hosts (heap st r)"
    "\<And>q. q \<noteq> r \<Longrightarrow> heap st2 q = heap st q"
    "st' = st2\<lparr>Proxies_hosts :=
             foldl (setHost r)
               (foldl (dropStale r (hosts (heap st2 r))) (Proxies_hosts st2) (map fst (Proxies_hosts st2)))
               (hosts (heap st2 r)),
           prefs := map (\<lambda>q. toStored (heap st2 q)) (proxies st2)\<rparr>"
proof -
  let ?st1 = "if arrayIndexOf (proxies st) r = - 1 then st\<lparr>proxies := proxies st @ [r]\<rparr> else st"
  have p1: "proxies ?st1 = (if r \<in> set (proxies st) then proxies st else proxies st @ [r])"
    by (simp add: arrayIndexOf_absent)
  have h1: "heap ?st1 = heap st" "Proxies_hosts ?st1 = Proxies_hosts st" by simp_all
  show ?thesis
  proof (cases "regexp (heap ?st1 r) = None")
    case False
    with assms have "st' = ?st1\<lparr>Proxies_hosts :=
             foldl (setHost r)
               (foldl (dropStale r (hosts (heap ?st1 r))) (Proxies_hosts ?st1) (map fst (Proxies_hosts ?st1)))
               (hosts (heap ?st1 r)),
           prefs := map (\<lambda>q. toStored (heap ?st1 q)) (proxies ?st1)\<rparr>"
      unfolding save_def Let_def by (simp split: if_splits)
    with p1 h1 show ?thesis using that[of ?st1] by simp
  next
    case True
    with assms obtain st2 where c: "compileRef ?st1 r = Inr st2"
      and s: "st' = st2\<lparr>Proxies_hosts :=
             foldl (setHost r)
               (foldl (dropStale r (hosts (heap st2 r))) (Proxies_hosts st2) (map fst (Proxies_hosts st2)))
               (hosts (heap st2 r)),
           prefs := map (\<lambda>q. toStored (heap st2 q)) (proxies st2)\<rparr>"
      unfolding save_def Let_def by (auto split: if_splits sum.splits)
    from compileRef_frame[OF c] p1 h1 s show ?thesis using that[of st2] by simp
  qed
qed

lemma save_index:
  assumes "save st r = Inr st'"
  shows "proxies st' = (if r \<in> set (proxies st) then proxies st else proxies st @ [r])"
    and "hosts (heap st' r) = hosts (heap st r)"
    and "\<And>q. q \<noteq> r \<Longrightarrow> heap st' q = heap st q"
    and "\<And>h. map_of (Proxies_hosts st') h =
           (if h \<in> set (hosts (heap st r))
            then (if h = ''__proto__'' then map_of (Proxies_hosts st) h else Some r)
            else if map_of (Proxies_hosts st) h = Some r then None
            else map_of (Proxies_hosts st) h)"
proof -
  from save_compiled[OF assms] obtain st2 where st2:
    "proxies st2 = (if r \<in> set (proxies st) then proxies st else proxies st @ [r])"
    "Proxies_hosts st2 = Proxies_hosts st"
    "hosts (heap st2 r) = hosts (heap st r)"
    "\<And>q. q \<noteq> r \<Longrightarrow> heap st2 q = heap st q"
    "st' = st2\<lparr>Proxies_hosts :=
             foldl (setHost r)
               (foldl (dropStale r (hosts (heap st2 r))) (Proxies_hosts st2) (map fst (Proxies_hosts st2)))
               (hosts (heap st2 r)),
           prefs := map (\<lambda>q. toStored (heap st2 q)) (proxies st2)\<rparr>"
    by blast
  show "proxies st' = (if r \<in> set (proxies st) then proxies st else proxies st @ [r])"
    using st2 by simp
  show "hosts (heap st' r) = hosts (heap st r)" using st2 by simp
  show "\<And>q. q \<noteq> r \<Longrightarrow> heap st' q = heap st q" using st2 by simp
  fix h
  have "map_of (Proxies_hosts st) h = Some r \<Longrightarrow> h \<in> fst ` set (Proxies_hosts st)"
    by (metis map_of_eq_None_iff option.distinct(1))
  then show "map_of (Proxies_hosts st') h =
           (if h \<in> set (hosts (heap st r))
            then (if h = ''__proto__'' then map_of (Proxies_hosts st) h else Some r)
            else if map_of (Proxies_hosts st) h = Some r then None
            else map_of (Proxies_hosts st) h)"
    unfolding st2(5) by (auto simp: map_of_index_hosts map_of_dropStale st2(2,3))
qed


lemma in_keys_iff: "h \<in> fst ` set al \<longleftrightarrow> map_of al h \<noteq> None"
  by (simp add: map_of_eq_None_iff)

lemma save_inv_general:
  assumes s: "save st r = Inr st'"
    and P1: "\<And>q h. q \<in> set (proxies st) \<Longrightarrow> q \<noteq> r \<Longrightarrow> h \<in> set (hosts (heap st q))
               \<Longrightarrow> map_of (Proxies_hosts st) h = Some q"
    and P2: "\<And>h q. map_of (Proxies_hosts st) h = Some q \<Longrightarrow> q \<noteq> r
               \<Longrightarrow> q \<in> set (proxies st) \<and> h \<in> set (hosts (heap st q))"
    and P3: "\<And>q h. q \<in> set (proxies st) \<Longrightarrow> q \<noteq> r \<Longrightarrow> h \<in> set (hosts (heap st q))
               \<Longrightarrow> h \<notin> set (hosts (heap st r))"
    and P4: "''__proto__'' \<in> set (hosts (heap st r))
               \<Longrightarrow> map_of (Proxies_hosts st) ''__proto__'' = Some r"
  shows "hostIndexInv st'"
proof -
  note e = save_index[OF s]
  have mem: "q \<in> set (proxies st') \<longleftrightarrow> q = r \<or> q \<in> set (proxies st)" for q
    using e(1) by auto
  have hs: "hosts (heap st' q) = hosts (heap st q)" for q
    using e(2,3) by (cases "q = r") simp_all
  have one: "map_of (Proxies_hosts st') h = Some q"
    if "q \<in> set (proxies st')" "h \<in> set (hosts (heap st' q))" for q h
  proof (cases "q = r")
    case True
    with that P4 show ?thesis by (auto simp: e(4) hs)
  next
    case False
    with that mem have q: "q \<in> set (proxies st)" "h \<in> set (hosts (heap st q))"
      by (simp_all add: hs)
    from P1[OF q(1) False q(2)] P3[OF q(1) False q(2)] False show ?thesis
      by (simp add: e(4))
  qed
  have two: "\<exists>q\<in>set (proxies st'). h \<in> set (hosts (heap st' q))"
    if "h \<in> fst ` set (Proxies_hosts st')" for h
  proof -
    from that obtain q where q: "map_of (Proxies_hosts st') h = Some q"
      by (auto simp: in_keys_iff)
    show ?thesis
    proof (cases "h \<in> set (hosts (heap st r))")
      case True
      then show ?thesis using mem hs by auto
    next
      case False
      with q have old: "map_of (Proxies_hosts st) h = Some q" "q \<noteq> r"
        by (auto simp: e(4) split: if_splits)
      from P2[OF old] show ?thesis using mem hs by auto
    qed
  qed
  show ?thesis unfolding hostIndexInv_def using one two by blast
qed

lemma inv_indexed:
  assumes "hostIndexInv st" "q \<in> set (proxies st)" "h \<in> set (hosts (heap st q))"
  shows "map_of (Proxies_hosts st) h = Some q"
  using assms unfolding hostIndexInv_def by blast

lemma inv_listed:
  assumes "hostIndexInv st" "map_of (Proxies_hosts st) h = Some q"
  shows "q \<in> set (proxies st) \<and> h \<in> set (hosts (heap st q))"
proof -
  from assms(2) have "h \<in> fst ` set (Proxies_hosts st)" by (simp add: in_keys_iff)
  with assms(1) obtain q' where q': "q' \<in> set (proxies st)" "h \<in> set (hosts (heap st q'))"
    unfolding hostIndexInv_def by blast
  with inv_indexed[OF assms(1) q'] assms(2) show ?thesis by simp
qed

text \<open>
  \<open>sameExcept st st0 r\<close>: \<open>st0\<close> is \<open>st\<close> after the proxy \<open>r\<close> has been created or
  changed, its list of hosts edited for instance; the registry, the index and the hosts
  of the other proxies are those of \<open>st\<close>. \<open>freeFor st r hs\<close>: none of the hosts \<open>hs\<close> is
  \<open>__proto__\<close>, and none is indexed to another proxy than \<open>r\<close>.
\<close>

definition sameExcept :: "Proxies \<Rightarrow> Proxies \<Rightarrow> ref \<Rightarrow> bool" where
  "sameExcept st st0 r =
     (proxies st0 = proxies st \<and> Proxies_hosts st0 = Proxies_hosts st
      \<and> (\<forall>q\<in>set (proxies st). q \<noteq> r \<longrightarrow> hosts (heap st0 q) = hosts (heap st q)))"

definition freeFor :: "Proxies \<Rightarrow> ref \<Rightarrow> string list \<Rightarrow> bool" where
  "freeFor st r hs =
     list_all (\<lambda>h. h \<noteq> ''__proto__''
                  \<and> (map_of (Proxies_hosts st) h = None \<or> map_of (Proxies_hosts st) h = Some r)) hs"

lemma save_inv:
  assumes inv: "hostIndexInv st"
    and same: "sameExcept st st0 r"
    and free: "freeFor st r (hosts (heap st0 r))"
    and s: "save st0 r = Inr st'"
  shows "hostIndexInv st'"
proof (rule save_inv_general[OF s])
  have p: "proxies st0 = proxies st" and i: "Proxies_hosts st0 = Proxies_hosts st"
    using same by (simp_all add: sameExcept_def)
  have o: "hosts (heap st0 q) = hosts (heap st q)" if "q \<in> set (proxies st)" "q \<noteq> r" for q
    using same that by (simp add: sameExcept_def)
  have f: "h \<noteq> ''__proto__''
           \<and> (map_of (Proxies_hosts st) h = None \<or> map_of (Proxies_hosts st) h = Some r)"
    if "h \<in> set (hosts (heap st0 r))" for h
    using free that by (simp add: freeFor_def list_all_iff)
  {
    fix q h assume q: "q \<in> set (proxies st0)" "q \<noteq> r" "h \<in> set (hosts (heap st0 q))"
    then have q': "q \<in> set (proxies st)" "h \<in> set (hosts (heap st q))"
      using p o by simp_all
    show "map_of (Proxies_hosts st0) h = Some q"
      using inv_indexed[OF inv q'] i by simp
    show "h \<notin> set (hosts (heap st0 r))"
      using f[of h] inv_indexed[OF inv q'] q(2) by auto
  }
  {
    fix h q assume a: "map_of (Proxies_hosts st0) h = Some q" "q \<noteq> r"
    then have "q \<in> set (proxies st) \<and> h \<in> set (hosts (heap st q))"
      using inv_listed[OF inv, of h q] i by simp
    then show "q \<in> set (proxies st0) \<and> h \<in> set (hosts (heap st0 q))"
      using p o a(2) by simp
  }
  show "''__proto__'' \<in> set (hosts (heap st0 r))
        \<Longrightarrow> map_of (Proxies_hosts st0) ''__proto__'' = Some r"
    using f[of "''__proto__''"] by simp
qed

text \<open>A proxy that a detector has created, saved: \<open>new Zotero.Proxy\<close> leaves the
  registry, the index and the other proxies as they are.\<close>

lemma alloc_sameExcept: "sameExcept st (fst (alloc st p)) (nextRef st)"
  by (simp add: sameExcept_def alloc_def)

lemma saveNew_inv:
  assumes "hostIndexInv st" and "freeFor st (nextRef st) (hosts p)"
    and "saveNew st p = Inr st'"
  shows "hostIndexInv st'"
proof (rule save_inv[OF assms(1) alloc_sameExcept[of st p]])
  show "freeFor st (nextRef st) (hosts (heap (fst (alloc st p)) (nextRef st)))"
    using assms(2) by (simp add: alloc_def)
  show "save (fst (alloc st p)) (nextRef st) = Inr st'"
    using assms(3) by (simp add: saveNew_def alloc_def)
qed

lemma associate_inv:
  assumes inv: "hostIndexInv st" and r: "r \<in> set (proxies st)"
    and a: "associate st d r m = Inr st'"
  shows "hostIndexInv st'"
proof -
  let ?p = "heap st r"
  let ?h = "str_undefined (matchText m (paramGroup ?p ''%h''))"
  let ?st = "st\<lparr>heap := (heap st)(r := ?p\<lparr>hosts := hosts ?p @ [?h]\<rparr>)\<rparr>"
  show ?thesis
  proof (cases "autoAssociate ?p \<and> statusCode d < 400 \<and> hostsGet st ?h = Undefined
                \<and> arrayIndexOf (hosts ?p) ?h = - 1 \<and> \<not> isBlacklisted ?h")
    case False
    with a have "st' = st" unfolding associate_def Let_def by (auto split: if_splits)
    with inv show ?thesis by simp
  next
    case True
    with a have s: "save ?st r = Inr st'" unfolding associate_def Let_def by (simp split: if_splits)
    from True have "hostsGet st ?h = Undefined" by simp
    then have new: "map_of (Proxies_hosts st) ?h = None" "?h \<noteq> ''__proto__''"
      by (auto simp: hostsGet_def objectPrototypeKeys_def split: option.splits if_splits)
    show ?thesis
    proof (rule save_inv_general[OF s])
      fix q h assume q: "q \<in> set (proxies ?st)" "q \<noteq> r" "h \<in> set (hosts (heap ?st q))"
      then have q': "q \<in> set (proxies st)" "h \<in> set (hosts (heap st q))" by simp_all
      show "map_of (Proxies_hosts ?st) h = Some q" using inv_indexed[OF inv q'] by simp
      show "h \<notin> set (hosts (heap ?st r))"
      proof
        assume "h \<in> set (hosts (heap ?st r))"
        then have "h \<in> set (hosts ?p) \<or> h = ?h" by auto
        then show False
        proof
          assume "h \<in> set (hosts ?p)"
          from inv_indexed[OF inv r this] inv_indexed[OF inv q'] q(2) show False by simp
        next
          assume "h = ?h"
          with inv_indexed[OF inv q'] new show False by simp
        qed
      qed
    next
      fix h q assume "map_of (Proxies_hosts ?st) h = Some q" "q \<noteq> r"
      then show "q \<in> set (proxies ?st) \<and> h \<in> set (hosts (heap ?st q))"
        using inv_listed[OF inv, of h q] by simp
    next
      assume "''__proto__'' \<in> set (hosts (heap ?st r))"
      with new(2) have "''__proto__'' \<in> set (hosts ?p)" by simp
      from inv_indexed[OF inv r this]
      show "map_of (Proxies_hosts ?st) ''__proto__'' = Some r" by simp
    qed
  qed
qed


lemma knownProxy_member:
  "knownProxy h rs u = Some (r, m) \<Longrightarrow> r \<in> set rs"
  by (induction rs) (auto split: option.splits if_splits)

lemma observe_inv:
  assumes inv: "hostIndexInv st" and o: "observe st d = Inr (st', deferred, v)"
  shows "hostIndexInv st'"
proof (cases "url d \<in> set (ignoreURLs st) \<or> statusCode d \<ge> 400")
  case True
  with o inv show ?thesis unfolding observe_def by simp
next
  case False
  show ?thesis
  proof (cases "knownProxy (heap st) (proxies st) (url d)")
    case None
    with o False inv show ?thesis unfolding observe_def by (auto split: sum.splits)
  next
    case (Some rm)
    obtain r m where rm: "rm = (r, m)" by (cases rm)
    with Some o False have "associate st d r m = Inr st'"
      unfolding observe_def by (auto split: sum.splits)
    from associate_inv[OF inv knownProxy_member[OF Some[unfolded rm]] this] show ?thesis .
  qed
qed

text \<open>The state a call leaves (the initial state if it threw), and an exchange.\<close>

definition stateOf :: "error + Proxies \<Rightarrow> Proxies" where
  "stateOf res = (case res of Inl e \<Rightarrow> initialProxies | Inr st \<Rightarrow> st)"

definition exchange :: "string \<Rightarrow> int \<Rightarrow> (string \<times> string) list \<Rightarrow> details" where
  "exchange u status hs =
     \<lparr>url = u, statusCode = status, requestID = None, requestHeaders = Some (\<lambda>name. None),
      responseHeaders = Some (map_of hs), originUrl = None\<rparr>"

definition journalProxyA :: proxy where
  "journalProxyA =
     newProxy\<lparr>scheme := ''https://proxy.example.com:2048/%p'', hosts := [''journal.example.org'']\<rparr>"

definition journalProxyB :: proxy where
  "journalProxyB =
     newProxy\<lparr>scheme := ''https://ezproxy.example.net:2048/%p'', hosts := [''journal.example.org'']\<rparr>"

definition oneProxy :: Proxies where
  "oneProxy = stateOf (saveNew initialProxies journalProxyA)"

definition twoProxies :: Proxies where
  "twoProxies = stateOf (saveNew oneProxy journalProxyB)"

text \<open>
  C6, as stated: the invariant holds after any \<open>save\<close>. Saving a second proxy for a
  host that a first proxy lists (two proxy servers for one journal) leaves the first
  proxy listing a host that the index maps to the second.
\<close>

theorem hostIndex_shared_host_counterexample:
  "hostIndexInv oneProxy
   \<and> \<not> isl (saveNew oneProxy journalProxyB)
   \<and> hosts (heap twoProxies 0) = [''journal.example.org'']
   \<and> map_of (Proxies_hosts twoProxies) ''journal.example.org'' = Some 1
   \<and> \<not> hostIndexInv twoProxies"
  by code_simp

text \<open>
  C6, amended. From a state with the invariant: after a proxy has been created or its
  hosts have been edited, \<open>save\<close> of that proxy gives a state with the invariant again,
  provided none of its hosts is indexed to another proxy (and none is \<open>__proto__\<close>); the
  hosts it no longer lists leave the index. \<open>observe\<close>, with the association of a host
  it may make, keeps the invariant.
\<close>

theorem hostIndex_preserved:
  assumes "hostIndexInv st"
  shows "(sameExcept st st0 r \<longrightarrow> freeFor st r (hosts (heap st0 r))
            \<longrightarrow> save st0 r = Inr st' \<longrightarrow> hostIndexInv st')
         \<and> (observe st d = Inr (st'', deferred, v) \<longrightarrow> hostIndexInv st'')"
  using save_inv[OF assms] observe_inv[OF assms] by blast

text \<open>
  The registry with one proxy, whose host is then replaced by another; and a registry
  with a proxy that takes new hosts, with a request through it.
\<close>

definition movedProxy :: Proxies where
  "movedProxy =
     oneProxy\<lparr>heap := (heap oneProxy)(0 := (heap oneProxy 0)\<lparr>hosts := [''journal.example.com'']\<rparr>)\<rparr>"

definition hostRegistry :: Proxies where
  "hostRegistry =
     stateOf (saveNew initialProxies
       (newProxy\<lparr>scheme := ''https://%h.proxy.example.com/%p'', multiHost := True,
                 autoAssociate := True, hosts := [''journal.example.org'']\<rparr>))"

definition otherRequest :: details where
  "otherRequest = exchange ''https://other.example.org.proxy.example.com/article'' 200 []"

definition observed :: "error + Proxies \<times> bool \<times> verdict \<Rightarrow> Proxies" where
  "observed res = (case res of Inl e \<Rightarrow> initialProxies | Inr (st, deferred, v) \<Rightarrow> st)"

lemma oneProxy_inv: "hostIndexInv oneProxy"
  by code_simp

lemma movedProxy_edit:
  "sameExcept oneProxy movedProxy 0 \<and> freeFor oneProxy 0 (hosts (heap movedProxy 0))"
  by code_simp

lemma movedProxy_saved:
  "isl (save movedProxy 0) = False
   \<and> map_of (Proxies_hosts oneProxy) ''journal.example.org'' = Some 0
   \<and> map_of (Proxies_hosts (stateOf (save movedProxy 0))) ''journal.example.org'' = None
   \<and> map_of (Proxies_hosts (stateOf (save movedProxy 0))) ''journal.example.com'' = Some 0"
  by code_simp

lemma hostRegistry_inv: "hostIndexInv hostRegistry"
  by code_simp

lemma otherRequest_observed:
  "isl (observe hostRegistry otherRequest) = False
   \<and> map_of (Proxies_hosts (observed (observe hostRegistry otherRequest))) ''other.example.org'' = Some 0"
  by code_simp

theorem hostIndex_preserved_witness:
  "hostIndexInv oneProxy
   \<and> sameExcept oneProxy movedProxy 0 \<and> freeFor oneProxy 0 (hosts (heap movedProxy 0))
   \<and> map_of (Proxies_hosts oneProxy) ''journal.example.org'' = Some 0
   \<and> map_of (Proxies_hosts (stateOf (save movedProxy 0))) ''journal.example.org'' = None
   \<and> map_of (Proxies_hosts (stateOf (save movedProxy 0))) ''journal.example.com'' = Some 0
   \<and> hostIndexInv (stateOf (save movedProxy 0))
   \<and> hostIndexInv hostRegistry
   \<and> map_of (Proxies_hosts (observed (observe hostRegistry otherRequest))) ''other.example.org'' = Some 0
   \<and> hostIndexInv (observed (observe hostRegistry otherRequest))"
proof -
  from movedProxy_saved obtain st' where s: "save movedProxy 0 = Inr st'"
    by (cases "save movedProxy 0") auto
  from hostIndex_preserved[of oneProxy movedProxy 0 st'] oneProxy_inv movedProxy_edit s
  have "hostIndexInv st'" by blast
  then have a: "hostIndexInv (stateOf (save movedProxy 0))" using s by (simp add: stateOf_def)
  from otherRequest_observed obtain st'' deferred v
    where o: "observe hostRegistry otherRequest = Inr (st'', deferred, v)"
    by (cases "observe hostRegistry otherRequest") auto
  from hostIndex_preserved[of hostRegistry _ _ _ otherRequest st'' deferred v] hostRegistry_inv o
  have "hostIndexInv st''" by blast
  then have b: "hostIndexInv (observed (observe hostRegistry otherRequest))"
    using o by (simp add: observed_def)
  from a b oneProxy_inv movedProxy_edit movedProxy_saved hostRegistry_inv otherRequest_observed
  show ?thesis by simp
qed

section \<open>The detector for EZproxy\<close>

text \<open>
  The proxy a detector returns; the exchanges of a login with EZproxy: the URL of the
  request, status 302, \<open>server: EZproxy\<close> and a \<open>location\<close>.
\<close>

definition detected :: "error + Proxies \<times> proxy option \<Rightarrow> error + proxy option" where
  "detected res = (case res of Inl e \<Rightarrow> Inl e | Inr (st, p) \<Rightarrow> Inr p)"

definition loginEncoded :: string where
  "loginEncoded = ''https://proxy.example.com/login?url=http%3A%2F%2Fjournal.example.org%2Fpath''"

definition loginQuoted :: string where
  "loginQuoted = ''https://proxy.example.com/login?qurl=http%3A%2F%2Fjournal.example.org%2Fpath''"

definition loginPlain :: string where
  "loginPlain = ''https://proxy.example.com/login?url=http://journal.example.org/path''"

definition portURL :: string where
  "portURL = ''https://proxy.example.com:2048/path''"

definition hostURL :: string where
  "hostURL = ''https://journal.example.org.proxy.example.com/path''"

definition ezproxy :: "string \<Rightarrow> string \<Rightarrow> details" where
  "ezproxy u location = exchange u 302 [(''server'', ''EZproxy''), (''location'', location)]"

text \<open>
  C3, as stated: an exchange with status 302, \<open>server: EZproxy\<close> and a \<open>location\<close>
  whose query carries \<open>url=http%3A%2F%2Fjournal.example.org%2Fpath\<close> yields a proxy.
  The detector reads the parameter from the URL of the request, not from \<open>location\<close>,
  and it takes the value of \<open>url=\<close> as it stands: the escaped value has no protocol,
  and no proxy is learned, wherever the parameter stands and whether it is \<open>url\<close> or
  \<open>qurl\<close>.
\<close>

theorem EZProxy_encoded_counterexample:
  "detected (EZProxy initialProxies (ezproxy portURL loginEncoded)) = Inr None
   \<and> detected (EZProxy initialProxies (ezproxy loginEncoded portURL)) = Inr None
   \<and> detected (EZProxy initialProxies (ezproxy loginQuoted portURL)) = Inr None"
  by code_simp


definition journalHostProxy :: proxy where
  "journalHostProxy =
     newProxy\<lparr>scheme := ''https://%h.proxy.example.com/%p'', multiHost := True,
              autoAssociate := True, hosts := [''journal.example.org'']\<rparr>"

lemma learn_declines:
  assumes "truthy (proxyToProper st (href proxiedURI) True)"
  shows "learn st loginURI proxiedURI = Inr None"
  using assms unfolding learn_def by (simp split: option.splits)

text \<open>What the registry holds: the proxies, the index, the stored preference.\<close>

definition registryView ::
  "Proxies \<Rightarrow> ref list \<times> proxy list \<times> (string \<times> ref) list \<times> stored list \<times> string list" where
  "registryView st =
     (proxies st, map (heap st) (proxies st), Proxies_hosts st, prefs st, ignoreURLs st)"

definition viewOf ::
  "error + Proxies \<Rightarrow> error + ref list \<times> proxy list \<times> (string \<times> ref) list \<times> stored list \<times> string list" where
  "viewOf res = (case res of Inl e \<Rightarrow> Inl e | Inr st \<Rightarrow> Inr (registryView st))"

lemma EZProxy_port:
  "detected (EZProxy initialProxies (ezproxy loginPlain portURL)) = Inr (Some journalProxyA)"
  by code_simp

lemma EZProxy_host:
  "detected (EZProxy initialProxies (ezproxy loginPlain hostURL)) = Inr (Some journalHostProxy)"
  by code_simp

lemma detect_port_first:
  "viewOf (detect initialProxies (ezproxy loginPlain portURL)) = Inr (registryView oneProxy)"
  by code_simp

lemma detect_port_again:
  "viewOf (detect oneProxy (ezproxy loginPlain portURL)) = Inr (registryView oneProxy)"
  by code_simp

lemma detect_host_first:
  "viewOf (detect initialProxies (ezproxy loginPlain hostURL)) = Inr (registryView hostRegistry)"
  by code_simp

lemma detect_host_again:
  "viewOf (detect hostRegistry (ezproxy loginPlain hostURL)) = Inr (registryView hostRegistry)"
  by code_simp

text \<open>
  C3, amended. When the URL of the request is the login URL with
  \<open>url=http://journal.example.org/path\<close>, not escaped, and \<open>location\<close> is the proxied
  URL, the detector returns a proxy by port (\<open>location\<close> on the host of the login, on
  another port) or by host (\<open>location\<close> on a host that contains the proper host), with
  \<open>hosts = [journal.example.org]\<close>; it is saved, and observing the same exchange again
  leaves the registry as it is. In any state, \<open>learn\<close> declines when
  \<open>proxyToProper\<close> knows the proxied URL.
\<close>

theorem EZProxy_learns_once:
  "detected (EZProxy initialProxies (ezproxy loginPlain portURL)) = Inr (Some journalProxyA)
   \<and> detected (EZProxy initialProxies (ezproxy loginPlain hostURL)) = Inr (Some journalHostProxy)
   \<and> viewOf (detect initialProxies (ezproxy loginPlain portURL)) = Inr (registryView oneProxy)
   \<and> viewOf (detect oneProxy (ezproxy loginPlain portURL)) = Inr (registryView oneProxy)
   \<and> viewOf (detect initialProxies (ezproxy loginPlain hostURL)) = Inr (registryView hostRegistry)
   \<and> viewOf (detect hostRegistry (ezproxy loginPlain hostURL)) = Inr (registryView hostRegistry)
   \<and> proxies oneProxy = [0] \<and> proxies hostRegistry = [0]
   \<and> (truthy (proxyToProper st (href proxiedURI) True) \<longrightarrow> learn st loginURI proxiedURI = Inr None)"
proof -
  have "proxies oneProxy = [0] \<and> proxies hostRegistry = [0]" by code_simp
  with EZProxy_port EZProxy_host detect_port_first detect_port_again detect_host_first
    detect_host_again learn_declines[of st proxiedURI loginURI]
  show ?thesis by blast
qed

lemma portURL_known: "truthy (proxyToProper oneProxy (href (url_parse portURL)) True)"
  by code_simp

theorem EZProxy_learns_once_witness:
  "truthy (proxyToProper oneProxy (href (url_parse portURL)) True)
   \<and> learn oneProxy (url_parse loginPlain) (url_parse portURL) = Inr None"
  using EZProxy_learns_once[of oneProxy "url_parse portURL" "url_parse loginPlain"] portURL_known
  by blast

section \<open>Templates that \<open>compileRegexp\<close> takes as plain text\<close>

text \<open>
  \<open>compileRegexp\<close> has no check of the template and no \<open>throw\<close>: a \<open>%\<close> that starts none
  of the candidate placeholders is a character like any other. The pattern of a template
  in which no candidate occurs is the template itself, escaped, between \<open>^\<close> and \<open>$\<close>.
  First, how \<open>new RegExp\<close> reads an escaped string.
\<close>

lemma metachars_not_alnum: "c \<in> set metachars \<Longrightarrow> \<not> is_alnum c"
  by (auto simp: metachars_def is_alnum_def)

lemma plain_tok_literal: "c \<notin> set metachars \<Longrightarrow> plain_tok c = Some (TLit c)"
  by (simp add: metachars_def plain_tok_def)

lemma not_meta_plain: "c \<notin> set metachars \<Longrightarrow> c \<noteq> bslash \<and> c \<noteq> CHR ''[''"
  by (auto simp: metachars_def)

definition tapp :: "tok list \<Rightarrow> error + tok list \<Rightarrow> error + tok list" where
  "tapp ts r = (case r of Inl e \<Rightarrow> Inl e | Inr us \<Rightarrow> Inr (ts @ us))"

lemma tapp_simps [simp]: "tapp [] r = r" "tcons t (tapp ts r) = tapp (t # ts) r"
  by (auto simp: tapp_def tcons_def split: sum.splits)

lemma tokenize_quotemeta:
  "tokenize_go Normal (quotemeta s @ rest) = tapp (map TLit s) (tokenize_go Normal rest)"
proof (induction s)
  case Nil
  show ?case by (simp add: quotemeta_def)
next
  case (Cons c s)
  have q: "quotemeta (c # s) = (if c \<in> set metachars then [bslash, c] else [c]) @ quotemeta s"
    by (simp add: quotemeta_def)
  show ?case
  proof (cases "c \<in> set metachars")
    case True
    then show ?thesis using Cons metachars_not_alnum[OF True] by (simp add: q)
  next
    case False
    then show ?thesis using Cons plain_tok_literal[OF False] not_meta_plain[OF False]
      by (simp add: q)
  qed
qed

lemma parse_literals:
  "parse_go ((i, as, cur) # fs) n q (map TLit s @ ts)
   = parse_go ((i, as, rev (map Lit s) @ cur) # fs) n (if s = [] then q else False) ts"
proof (induction s arbitrary: cur q)
  case Nil
  show ?case by simp
next
  case (Cons c s)
  show ?case by (simp add: Cons.IH is_quantifier_def atom_of_def)
qed

lemma RegExp_literal:
  "RegExp (''^'' @ quotemeta s @ ''$'')
   = Inr \<lparr>pattern = seq (Bol # map Lit s @ [Eol]), ignoreCase = False\<rparr>"
proof -
  have t: "tokenize (''^'' @ quotemeta s @ ''$'') = Inr (TBol # map TLit s @ [TEol])"
    by (simp add: tokenize_def plain_tok_def tokenize_quotemeta tapp_def tcons_def)
  have "parse_go [(0, [], [])] 0 False (TBol # map TLit s @ [TEol])
        = Inr (seq (Bol # map Lit s @ [Eol]))"
    by (simp add: parse_literals is_quantifier_def atom_of_def close_frame_def)
  with t show ?thesis by (simp add: RegExp_def)
qed

lemma RegExp_literal':
  "RegExp (CHR ''^'' # quotemeta s @ ''$'')
   = Inr \<lparr>pattern = seq (Bol # map Lit s @ [Eol]), ignoreCase = False\<rparr>"
  using RegExp_literal[of s] by simp

text \<open>The matcher on a sequence, on literal characters and on a pattern that starts
  with \<open>^\<close>.\<close>

lemma ms_seq_Cons:
  "ms ci (seq (x # xs)) st = concat (map (ms ci (seq xs)) (ms ci x st))"
proof (cases xs)
  case Nil
  have "concat (map (\<lambda>st'. [st']) l) = l" for l :: "mstate list" by (induction l) auto
  moreover have "ms ci re.Eps = (\<lambda>st'. [st'])" by (rule ext) (simp add: ms.simps(1))
  ultimately show ?thesis using Nil by simp
next
  case (Cons y ys)
  then show ?thesis by (simp add: ms.simps(7))
qed

lemma ms_lits:
  "ms False (seq (map Lit s @ items)) (pos, u, caps)
   = (if take (length s) u = s
      then ms False (seq items) (pos + length s, drop (length s) u, caps) else [])"
proof (induction s arbitrary: pos u)
  case Nil
  show ?case by simp
next
  case (Cons c s)
  show ?case
  proof (cases u)
    case Nil
    then show ?thesis by (simp add: ms_seq_Cons ms.simps(2) one_char_def)
  next
    case (Cons x xs)
    then show ?thesis
      by (simp add: ms_seq_Cons ms.simps(2) one_char_def lit_match_def Cons.IH)
  qed
qed

lemma ms_Bol_later: "ms ci (seq (Bol # items)) (Suc pos, u, caps) = []"
  by (simp add: ms_seq_Cons ms.simps(5))

lemma ms_Bol_start: "ms ci (seq (Bol # items)) (0, u, caps) = ms ci (seq items) (0, u, caps)"
  by (simp add: ms_seq_Cons ms.simps(5))

lemma exec_from_Bol_later:
  "pattern rx = seq (Bol # items) \<Longrightarrow> exec_from rx (Suc pos) u = None"
  by (induction u arbitrary: pos) (simp_all add: match_at_def ms_Bol_later)

lemma exec_Bol:
  assumes "pattern rx = seq (Bol # items)"
  shows "exec rx u = match_at rx 0 u"
proof (cases u)
  case Nil
  then show ?thesis by (simp add: exec_def)
next
  case (Cons c s)
  then show ?thesis
    by (simp add: exec_def exec_from_Bol_later[OF assms] split: option.splits)
qed

lemma ngroups_lits: "ngroups (seq (map Lit s @ [Eol])) = 0"
proof (induction s)
  case Nil
  show ?case by simp
next
  case (Cons c s)
  then show ?case by (cases "map Lit s @ [Eol]") auto
qed

lemma exec_literal:
  assumes "pattern rx = seq (Bol # map Lit s @ [Eol])" "ignoreCase rx = False"
  shows "exec rx u = (if u = s then Some [Some u] else None)"
proof -
  have m: "ms False (seq (Bol # map Lit s @ [Eol])) (0, u, [])
           = (if u = s then [(length s, [], [])] else [])"
  proof -
    have "take (length s) u = s \<and> drop (length s) u = [] \<longleftrightarrow> u = s"
      by (metis append_take_drop_id append_Nil2 take_all_iff drop_eq_Nil nat_le_linear)
    then show ?thesis by (auto simp: ms_Bol_start ms_lits ms.simps(6))
  qed
  have g: "ngroups (seq (Bol # map Lit s @ [Eol])) = 0"
    using ngroups_lits[of s] by (cases "map Lit s @ [Eol]") auto
  show ?thesis
    unfolding exec_Bol[OF assms(1)] match_at_def assms m g by simp
qed

text \<open>
  \<open>parametersToCheck\<close> is the table of candidates that \<open>compileRegexp\<close> goes through:
  the table it finds, with \<open>%h\<close> assigned for a multi-host proxy. A candidate that does
  not occur in the template leaves the template, the indices and the parameters as they
  are.
\<close>

definition parametersToCheck :: "paramtable \<Rightarrow> proxy \<Rightarrow> paramtable" where
  "parametersToCheck table p =
     (if multiHost p then AList.update ''%h'' hostParameter table else table)"

declare skipEscaped.simps [simp del]

lemma skipEscaped_absent: "skipEscaped sch param (- 1) = (sch, - 1)"
  by (subst skipEscaped.simps) (simp add: charAt_def arr_def)

lemma checkParameter_absent:
  "indexOf sch k = - 1 \<Longrightarrow> checkParameter (sch, ind, ps) k = (sch, ind, ps)"
  by (simp add: checkParameter_def skipEscaped_absent)

lemma checkParameters_absent:
  "list_all (\<lambda>k. indexOf sch k = - 1) ks \<Longrightarrow> foldl checkParameter (sch, ind, ps) ks = (sch, ind, ps)"
  by (induction ks) (simp_all add: checkParameter_absent)

text \<open>
  The template of the example has the sequence \<open>%z\<close>. \<open>unrecognizedSequence\<close> follows
  the words of the specification: the template has a \<open>%\<close> that is not escaped (\<open>%%\<close>)
  and does not start one of \<open>%p\<close>, \<open>%d\<close>, \<open>%f\<close>, \<open>%a\<close>, \<open>%h\<close>.
\<close>

definition unknownTemplate :: proxy where
  "unknownTemplate = newProxy\<lparr>scheme := ''https://proxy.example.com/%z''\<rparr>"

fun unrecognizedSequence :: "string \<Rightarrow> bool" where
  "unrecognizedSequence [] = False"
| "unrecognizedSequence [c] = (c = CHR ''%'')"
| "unrecognizedSequence (c # d # s) =
     (if c = CHR ''%''
      then (if d = CHR ''%'' then unrecognizedSequence s
            else if d \<in> set ''pdfah'' then unrecognizedSequence s else True)
      else unrecognizedSequence (d # s))"

text \<open>
  C4, as stated: compiling a template with a \<open>%\<close> sequence that is none of the five
  placeholders would fail. It does not: the template \<open>https://proxy.example.com/%z\<close>
  compiles, to a proxy without parameters.
\<close>

theorem compileRegexp_unrecognized_counterexample:
  "unrecognizedSequence (scheme unknownTemplate)
   \<and> isl (compileRegexp Zotero_Proxy_schemeParameters unknownTemplate) = False
   \<and> parametersOf (compileRegexp Zotero_Proxy_schemeParameters unknownTemplate) = Inr []"
  by code_simp

text \<open>
  A template in which none of the candidate placeholders occurs compiles without an
  error, whatever other \<open>%\<close> sequences it has; the proxy gets no parameters, and its
  matcher matches the text of the template and nothing else.
\<close>

theorem compileRegexp_literal:
  assumes "list_all (\<lambda>k. indexOf (scheme p) k = - 1) (map fst (parametersToCheck table p))"
  shows "\<exists>rx. compileRegexp table p
               = Inr (parametersToCheck table p,
                      p\<lparr>indices := [], parameters := [], regexp := Some rx\<rparr>)
             \<and> (\<forall>u. exec rx u = (if u = scheme p then Some [Some u] else None))"
proof -
  let ?rx = "\<lparr>pattern = seq (Bol # map Lit (scheme p) @ [Eol]), ignoreCase = False\<rparr>"
  have "compileRegexp table p
        = Inr (parametersToCheck table p,
               p\<lparr>indices := [], parameters := [], regexp := Some ?rx\<rparr>)"
    using checkParameters_absent[OF assms, of "[]" "[]"]
    unfolding compileRegexp_def parametersToCheck_def Let_def
    by (simp add: RegExp_literal' parametersToCheck_def)
  moreover have "exec ?rx u = (if u = scheme p then Some [Some u] else None)" for u
    by (rule exec_literal) simp_all
  ultimately show ?thesis by blast
qed

theorem compileRegexp_literal_witness:
  "list_all (\<lambda>k. indexOf (scheme unknownTemplate) k = - 1)
     (map fst (parametersToCheck Zotero_Proxy_schemeParameters unknownTemplate))
   \<and> (\<exists>rx. compileRegexp Zotero_Proxy_schemeParameters unknownTemplate
             = Inr (parametersToCheck Zotero_Proxy_schemeParameters unknownTemplate,
                    unknownTemplate\<lparr>indices := [], parameters := [], regexp := Some rx\<rparr>)
           \<and> (\<forall>u. exec rx u = (if u = scheme unknownTemplate then Some [Some u] else None)))"
proof -
  have h: "list_all (\<lambda>k. indexOf (scheme unknownTemplate) k = - 1)
             (map fst (parametersToCheck Zotero_Proxy_schemeParameters unknownTemplate))"
    by code_simp
  from compileRegexp_literal[OF h] h show ?thesis by simp
qed

subsection \<open>Every template compiles\<close>

text \<open>
  The pattern that \<open>compileRegexp\<close> hands to \<open>new RegExp\<close> is the escaped template in
  which some placeholders have been replaced by their fragments. It is written here as
  a list of segments: a character of the template, the fragment \<open>(.*?)\<close> or the fragment
  for \<open>%h\<close>. \<open>render\<close> is the text of a segment, \<open>toks\<close> its tokens, \<open>itemsOf\<close> the
  itemsOf of the pattern, the groupsOf numbered from the left.
\<close>

datatype seg = Ch char | Any | Host

definition hostRe :: re where
  "hostRe =
     Cat (Plus True (CharSet False [(CHR ''a'', CHR ''z''), (CHR ''A'', CHR ''Z''), (CHR ''0'', CHR ''9'')]))
       (Cat (Lit CHR ''.'')
          (Plus True (CharSet False [(CHR ''a'', CHR ''z''), (CHR ''A'', CHR ''Z''),
                                     (CHR ''0'', CHR ''9''), (CHR ''.'', CHR ''.'')])))"

fun render :: "seg \<Rightarrow> string" where
  "render (Ch c) = quotemeta [c]"
| "render Any = ''(.*?)''"
| "render Host = hostParameter"

definition rend :: "seg list \<Rightarrow> string" where
  "rend segs = concat (map render segs)"

fun toks :: "seg \<Rightarrow> tok list" where
  "toks (Ch c) = [TLit c]"
| "toks Any = [TOpen, TDot, TStar, TQuest, TClose]"
| "toks Host =
     [TOpen, TSet False [(CHR ''a'', CHR ''z''), (CHR ''A'', CHR ''Z''), (CHR ''0'', CHR ''9'')],
      TPlus, TLit CHR ''.'',
      TSet False [(CHR ''a'', CHR ''z''), (CHR ''A'', CHR ''Z''), (CHR ''0'', CHR ''9''),
                  (CHR ''.'', CHR ''.'')],
      TPlus, TClose]"

fun itemsOf :: "nat \<Rightarrow> seg list \<Rightarrow> re list" where
  "itemsOf n [] = []"
| "itemsOf n (Ch c # segs) = Lit c # itemsOf n segs"
| "itemsOf n (Any # segs) = Grp (Suc n) (Star False Dot) # itemsOf (Suc n) segs"
| "itemsOf n (Host # segs) = Grp (Suc n) hostRe # itemsOf (Suc n) segs"

fun groupsOf :: "seg list \<Rightarrow> nat" where
  "groupsOf [] = 0"
| "groupsOf (Ch c # segs) = groupsOf segs"
| "groupsOf (s # segs) = Suc (groupsOf segs)"

lemma rend_simps [simp]: "rend [] = []" "rend (s # segs) = render s @ rend segs"
  by (simp_all add: rend_def)

lemma tapp_tapp: "tapp a (tapp b r) = tapp (a @ b) r"
  by (simp add: tapp_def split: sum.splits)

lemma tcons_tapp: "tcons t r = tapp [t] r"
  by (cases r) (simp_all add: tapp_def tcons_def)

lemma tokenize_seg:
  "tokenize_go Normal (render s @ rest) = tapp (toks s) (tokenize_go Normal rest)"
proof (cases s)
  case (Ch c)
  then show ?thesis using tokenize_quotemeta[of "[c]" rest] by simp
next
  case Any
  then show ?thesis by (simp add: plain_tok_def tcons_tapp tapp_tapp)
next
  case Host
  then show ?thesis
    by (simp add: hostParameter_def plain_tok_def close_class_def is_alnum_def tcons_tapp tapp_tapp)
qed

lemma tokenize_rend:
  "tokenize_go Normal (rend segs @ rest) = tapp (concat (map toks segs)) (tokenize_go Normal rest)"
  by (induction segs) (simp_all add: tokenize_seg tapp_tapp)

lemma parse_toks:
  "parse_go ((i, as, cur) # fs) n q (concat (map toks segs) @ ts)
   = parse_go ((i, as, rev (itemsOf n segs) @ cur) # fs) (n + groupsOf segs)
       (if segs = [] then q else False) ts"
proof (induction segs arbitrary: cur n q)
  case Nil
  show ?case by simp
next
  case (Cons s segs)
  show ?case
  proof (cases s)
    case (Ch c)
    then show ?thesis by (simp add: Cons.IH is_quantifier_def atom_of_def)
  next
    case Any
    then show ?thesis
      by (simp add: Cons.IH is_quantifier_def atom_of_def quantify_def close_frame_def)
  next
    case Host
    then show ?thesis
      by (simp add: Cons.IH is_quantifier_def atom_of_def quantify_def close_frame_def hostRe_def)
  qed
qed

lemma RegExp_rend:
  "RegExp (CHR ''^'' # rend segs @ ''$'')
   = Inr \<lparr>pattern = seq (Bol # itemsOf 0 segs @ [Eol]), ignoreCase = False\<rparr>"
proof -
  have t: "tokenize (CHR ''^'' # rend segs @ ''$'')
           = Inr (TBol # concat (map toks segs) @ [TEol])"
    by (simp add: tokenize_def plain_tok_def tokenize_rend tapp_def tcons_def)
  have "parse_go [(0, [], [])] 0 False (TBol # concat (map toks segs) @ [TEol])
        = Inr (seq (Bol # itemsOf 0 segs @ [Eol]))"
    by (simp add: parse_toks is_quantifier_def atom_of_def close_frame_def)
  with t show ?thesis by (simp add: RegExp_def)
qed

text \<open>
  \<open>replaceParam\<close> on the text of a list of segments is \<open>replaceSeg\<close> on the list: the
  first \<open>%\<close> and letter of the parameter that follow something else than a \<open>%\<close>
  become the fragment.
\<close>

fun replaceSeg :: "bool \<Rightarrow> char \<Rightarrow> seg \<Rightarrow> seg list \<Rightarrow> seg list" where
  "replaceSeg ok x F [] = []"
| "replaceSeg ok x F [s] = [s]"
| "replaceSeg ok x F (s # t # segs) =
     (if ok \<and> s = Ch CHR ''%'' \<and> t = Ch x then F # segs
      else s # replaceSeg (s \<noteq> Ch CHR ''%'') x F (t # segs))"

lemma render_plain: "c \<notin> set metachars \<Longrightarrow> render (Ch c) = [c]"
  by (simp add: quotemeta_def)

lemma render_meta: "c \<in> set metachars \<Longrightarrow> render (Ch c) = [bslash, c]"
  by (simp add: quotemeta_def)

declare render.simps(1) [simp del]

lemma percent_plain: "CHR ''%'' \<notin> set metachars"
  by (simp add: metachars_def)

lemma render_first:
  "x \<notin> set metachars \<Longrightarrow> startsWith (render s @ rest) [x] \<longleftrightarrow> s = Ch x"
  by (cases s) (auto simp: render.simps(1) startsWith_def quotemeta_def hostParameter_def metachars_def)

lemma rend_first:
  "x \<notin> set metachars \<Longrightarrow>
   startsWith (rend segs @ ''$'') [x] \<longleftrightarrow> (\<exists>segs'. segs = Ch x # segs')"
proof (cases segs)
  case Nil
  assume "x \<notin> set metachars"
  then have "x \<noteq> CHR ''$''" by (auto simp: metachars_def)
  with Nil show ?thesis by (simp add: startsWith_def)
next
  case (Cons s segs')
  assume "x \<notin> set metachars"
  from render_first[OF this, of s "rend segs' @ ''$''"] Cons show ?thesis by simp
qed

lemma starts2: "startsWith s [a, b] \<longleftrightarrow> (\<exists>s'. s = a # s' \<and> startsWith s' [b])"
  by (cases s) (auto simp: startsWith_def)

lemma rep_miss:
  "\<not> (ok \<and> s = Ch CHR ''%'' \<and> (\<exists>segs'. segs = Ch x # segs'))
   \<Longrightarrow> replaceSeg ok x F (s # segs) = s # replaceSeg (s \<noteq> Ch CHR ''%'') x F segs"
  by (cases segs) auto

lemma replaceParam_rend:
  assumes x: "x \<notin> set metachars" and F: "F = Any \<or> F = Host"
  shows "replaceParam (c0 # rend segs @ ''$'') [CHR ''%'', x] (render F)
         = c0 # rend (replaceSeg (c0 \<noteq> CHR ''%'') x F segs) @ ''$''"
proof (induction segs arbitrary: c0)
  case Nil
  show ?case by (simp add: startsWith_def)
next
  case (Cons s segs)
  define rest where "rest = rend segs @ ''$''"
  have hit: "startsWith (render s @ rest) [CHR ''%'', x]
             \<longleftrightarrow> s = Ch CHR ''%'' \<and> (\<exists>segs'. segs = Ch x # segs')"
  proof
    assume "startsWith (render s @ rest) [CHR ''%'', x]"
    then obtain s' where s': "render s @ rest = CHR ''%'' # s'" "startsWith s' [x]"
      unfolding starts2 by blast
    then have "startsWith (render s @ rest) [CHR ''%'']" by (simp add: startsWith_def)
    then have s: "s = Ch CHR ''%''" using render_first[OF percent_plain] by simp
    with s' have "startsWith rest [x]" by (simp add: render_plain[OF percent_plain])
    with s show "s = Ch CHR ''%'' \<and> (\<exists>segs'. segs = Ch x # segs')"
      unfolding rest_def using rend_first[OF x] by simp
  next
    assume "s = Ch CHR ''%'' \<and> (\<exists>segs'. segs = Ch x # segs')"
    then show "startsWith (render s @ rest) [CHR ''%'', x]"
      unfolding rest_def
      by (auto simp: startsWith_def render_plain[OF percent_plain] render_plain[OF x])
  qed
  show ?case
  proof (cases "c0 \<noteq> CHR ''%'' \<and> s = Ch CHR ''%'' \<and> (\<exists>segs'. segs = Ch x # segs')")
    case True
    then obtain segs' where segs: "segs = Ch x # segs'" by blast
    have "startsWith (CHR ''%'' # x # rend segs' @ ''$'') [CHR ''%'', x]"
      by (simp add: startsWith_def)
    then have "replaceParam (c0 # CHR ''%'' # x # rend segs' @ ''$'') [CHR ''%'', x] (render F)
          = c0 # render F @ rend segs' @ ''$''"
      using True by simp
    then show ?thesis
      using True unfolding segs
      by (simp add: render_plain[OF percent_plain] render_plain[OF x])
  next
    case False
    then have step: "replaceParam (c0 # render s @ rest) [CHR ''%'', x] (render F)
                     = c0 # replaceParam (render s @ rest) [CHR ''%'', x] (render F)"
      using hit by auto
    have tail: "replaceParam (render s @ rest) [CHR ''%'', x] (render F)
                = render s @ rend (replaceSeg (s \<noteq> Ch CHR ''%'') x F segs) @ ''$''"
    proof (cases s)
      case (Ch c)
      show ?thesis
      proof (cases "c \<in> set metachars")
        case True
        then have "c \<noteq> CHR ''%''" using percent_plain by auto
        then show ?thesis
          using Cons.IH[of c] unfolding Ch render_meta[OF True] rest_def
          by (simp add: startsWith_def)
      next
        case False
        then show ?thesis
          using Cons.IH[of c] unfolding Ch render_plain[OF False] rest_def by simp
      qed
    next
      case Any
      then show ?thesis
        using Cons.IH[of "CHR '')''"] unfolding rest_def by (simp add: startsWith_def)
    next
      case Host
      then show ?thesis
        using Cons.IH[of "CHR '')''"] unfolding rest_def
        by (simp add: startsWith_def hostParameter_def)
    qed
    show ?thesis
      using step tail rep_miss[OF False, of F] unfolding rest_def by simp
  qed
qed

lemma replaceParam_pattern:
  assumes "x \<notin> set metachars" and "F = Any \<or> F = Host"
  shows "replaceParam (CHR ''^'' # rend segs @ ''$'') [CHR ''%'', x] (render F)
         = CHR ''^'' # rend (replaceSeg True x F segs) @ ''$''"
  using replaceParam_rend[OF assms, of "CHR ''^''" segs] by simp

text \<open>
  What the matcher consumes: a match of a pattern takes a prefix of the input, and a
  literal character among the itemsOf of a sequence is one of the characters taken.
\<close>

definition consumes :: "mstate \<Rightarrow> mstate \<Rightarrow> string \<Rightarrow> bool" where
  "consumes st st' w = (fst (snd st) = w @ fst (snd st') \<and> fst st' = fst st + length w)"

lemma consumes_refl: "consumes st st []"
  by (simp add: consumes_def)

lemma consumes_self: "\<exists>w. consumes st st w"
  using consumes_refl by blast

lemma consumes_trans: "consumes st st1 w1 \<Longrightarrow> consumes st1 st' w2 \<Longrightarrow> consumes st st' (w1 @ w2)"
  by (simp add: consumes_def)

lemma consumes_cap: "consumes st (set_cap i st0 st') w \<longleftrightarrow> consumes st st' w"
  by (cases st0; cases st') (simp add: consumes_def set_cap_def)

lemma one_char_consumes:
  "st' \<in> set (one_char P st) \<Longrightarrow> \<exists>x. P x \<and> consumes st st' [x]"
  by (cases st) (auto simp: one_char_def consumes_def split: list.splits if_splits)

lemma ms_prefix: "st' \<in> set (ms ci r st) \<Longrightarrow> \<exists>w. consumes st st' w"
proof (induction ci r st arbitrary: st' rule: ms.induct)
  case (1 ci st)
  then have "st' = st" by (simp add: ms.simps(1))
  then show ?case using consumes_self by simp
next
  case (2 ci c st)
  then show ?case using one_char_consumes[of st'] by (simp add: ms.simps(2)) blast
next
  case (3 ci st)
  then show ?case using one_char_consumes[of st'] by (simp add: ms.simps(3)) blast
next
  case (4 ci neg rs st)
  then show ?case using one_char_consumes[of st'] by (simp add: ms.simps(4)) blast
next
  case (5 ci st)
  then have "st' = st" by (simp add: ms.simps(5) split: if_splits)
  then show ?case using consumes_self by simp
next
  case (6 ci st)
  then have "st' = st" by (simp add: ms.simps(6) split: if_splits)
  then show ?case using consumes_self by simp
next
  case (7 ci a b st)
  from 7(3) obtain st1 where "st1 \<in> set (ms ci a st)" "st' \<in> set (ms ci b st1)"
    by (auto simp: ms.simps(7))
  with 7(1)[of st1] 7(2)[of st1 st'] show ?case using consumes_trans by blast
next
  case (8 ci a b st)
  from 8(3) have "st' \<in> set (ms ci a st) \<or> st' \<in> set (ms ci b st)"
    by (simp add: ms.simps(8))
  with 8(1)[of st'] 8(2)[of st'] show ?case by blast
next
  case (9 ci i r st)
  from 9(2) obtain st0 where "st0 \<in> set (ms ci r st)" "st' = set_cap i st st0"
    by (auto simp: ms.simps(9))
  with 9(1)[of st0] show ?case by (simp add: consumes_cap)
next
  case (10 ci g r st)
  from 10(3) have "st' = st \<or> (\<exists>st1\<in>set (filter (progress st) (ms ci r st)). st' \<in> set (ms ci (Star g r) st1))"
    by (subst (asm) ms.simps(10)) (auto simp: Let_def split: if_splits)
  then show ?case
  proof
    assume "st' = st"
    then show ?thesis using consumes_self by simp
  next
    assume "\<exists>st1\<in>set (filter (progress st) (ms ci r st)). st' \<in> set (ms ci (Star g r) st1)"
    then obtain st1 where s: "st1 \<in> set (filter (progress st) (ms ci r st))"
        "st' \<in> set (ms ci (Star g r) st1)" by blast
    then have "st1 \<in> set (ms ci r st)" by simp
    with 10(1)[of st1] 10(2)[OF s] show ?thesis using consumes_trans by blast
  qed
next
  case (11 ci g r st)
  from 11(3) obtain st1 where "st1 \<in> set (ms ci r st)" "st' \<in> set (ms ci (Star g r) st1)"
    by (auto simp: ms.simps(11))
  with 11(1)[of st1] 11(2)[of st1 st'] show ?case using consumes_trans by blast
next
  case (12 ci g r st)
  from 12(2) have "st' = st \<or> st' \<in> set (ms ci r st)"
    by (auto simp: ms.simps(12) Let_def split: if_splits)
  with 12(1)[of st'] show ?case using consumes_self by blast
qed

lemma seq_lit:
  "st' \<in> set (ms False (seq xs) st) \<Longrightarrow> Lit c \<in> set xs
   \<Longrightarrow> \<exists>w. consumes st st' w \<and> c \<in> set w"
proof (induction xs arbitrary: st)
  case Nil
  then show ?case by simp
next
  case (Cons x xs)
  from Cons.prems(1) obtain st1 where st1: "st1 \<in> set (ms False x st)"
      "st' \<in> set (ms False (seq xs) st1)"
    unfolding ms_seq_Cons by auto
  show ?case
  proof (cases "x = Lit c")
    case True
    with st1(1) obtain y where "lit_match False c y" "consumes st st1 [y]"
      using one_char_consumes[of st1 "lit_match False c" st] by (auto simp: ms.simps(2))
    then have a: "consumes st st1 [c]" by (simp add: lit_match_def)
    from ms_prefix[OF st1(2)] obtain w2 where "consumes st1 st' w2" by blast
    from consumes_trans[OF a this] show ?thesis by auto
  next
    case False
    with Cons.prems(2) have "Lit c \<in> set xs" by simp
    from Cons.IH[OF st1(2) this] obtain w2 where w2: "consumes st1 st' w2" "c \<in> set w2"
      by blast
    from ms_prefix[OF st1(1)] obtain w1 where "consumes st st1 w1" by blast
    from consumes_trans[OF this w2(1)] w2(2) show ?thesis by auto
  qed
qed

lemma exec_contains:
  assumes "pattern rx = seq (Bol # its @ [Eol])" and "ignoreCase rx = False"
      and "Lit c \<in> set its" and "exec rx u = Some m"
  shows "c \<in> set u"
proof -
  from assms(4) have "match_at rx 0 u = Some m"
    unfolding exec_Bol[OF assms(1)] .
  then obtain st' t where "ms False (seq (Bol # its @ [Eol])) (0, u, []) = st' # t"
    unfolding match_at_def assms(1,2) by (auto split: list.splits)
  then have "st' \<in> set (ms False (seq (Bol # its @ [Eol])) (0, u, []))" by simp
  from seq_lit[OF this, of c] assms(3) obtain w where "consumes (0, u, []) st' w" "c \<in> set w"
    by auto
  then show ?thesis by (auto simp: consumes_def)
qed

text \<open>
  What \<open>compileRegexp\<close> keeps of a template: \<open>keptStr c s\<close> says that the character
  \<open>c\<close> occurs in \<open>s\<close>, at its end if it is a \<open>%\<close>. The loop that skips escaped
  parameters takes out only a \<open>%\<close> that something follows, and a replacement takes out
  only a \<open>%\<close> with the letter of a placeholder after it.
\<close>

definition keptSeg :: "char \<Rightarrow> seg list \<Rightarrow> bool" where
  "keptSeg c segs = (Ch c \<in> set segs \<and> (c = CHR ''%'' \<longrightarrow> last segs = Ch c))"

definition keptStr :: "char \<Rightarrow> string \<Rightarrow> bool" where
  "keptStr c s = (c \<in> set s \<and> (c = CHR ''%'' \<longrightarrow> last s = c))"

lemma rep_member:
  "Ch c \<in> set segs \<Longrightarrow> c \<noteq> CHR ''%'' \<Longrightarrow> c \<noteq> x \<Longrightarrow> Ch c \<in> set (replaceSeg ok x F segs)"
  by (induction ok x F segs rule: replaceSeg.induct) auto

lemma rep_last:
  "segs \<noteq> [] \<Longrightarrow> last segs = Ch CHR ''%'' \<Longrightarrow> x \<noteq> CHR ''%''
   \<Longrightarrow> replaceSeg ok x F segs \<noteq> [] \<and> last (replaceSeg ok x F segs) = Ch CHR ''%''"
  by (induction ok x F segs rule: replaceSeg.induct) (auto split: if_splits)

lemma rep_kept:
  assumes "keptSeg c segs" "c \<noteq> x" "x \<noteq> CHR ''%''"
  shows "keptSeg c (replaceSeg ok x F segs)"
proof (cases "c = CHR ''%''")
  case True
  with assms(1) have "segs \<noteq> []" "last segs = Ch CHR ''%''" by (auto simp: keptSeg_def)
  from rep_last[OF this assms(3), of ok F]
  have l: "replaceSeg ok x F segs \<noteq> []" "last (replaceSeg ok x F segs) = Ch CHR ''%''" by simp_all
  from last_in_set[OF l(1)] l(2) have "Ch CHR ''%'' \<in> set (replaceSeg ok x F segs)" by simp
  with l True show ?thesis by (simp add: keptSeg_def)
next
  case False
  with assms rep_member[of c segs x ok F] show ?thesis by (simp add: keptSeg_def)
qed

lemma items_lit: "Ch c \<in> set segs \<Longrightarrow> Lit c \<in> set (itemsOf n segs)"
  by (induction n segs rule: itemsOf.induct) auto

lemma rend_chars: "rend (map Ch s) = quotemeta s"
  by (induction s) (simp_all add: render.simps(1) quotemeta_def)

lemma keptSeg_chars: "keptStr c s \<Longrightarrow> keptSeg c (map Ch s)"
  by (cases "s = []") (auto simp: keptStr_def keptSeg_def last_map)

lemma find_sub_lt: "find_sub p s = Some i \<Longrightarrow> p \<noteq> [] \<Longrightarrow> i < length s"
  by (induction s arbitrary: i) (auto split: if_splits)

lemma indexOfFrom_valid:
  "p \<noteq> [] \<Longrightarrow> indexOfFrom s p k = - 1 \<or> (0 \<le> indexOfFrom s p k \<and> nat (indexOfFrom s p k) < length s)"
  using find_sub_lt[of p "drop k s"]
  by (auto simp: indexOfFrom_def split: option.splits)

lemma remove_kept:
  assumes "Suc i < length s" "s ! i = CHR ''%''" "keptStr c s"
  shows "keptStr c (take i s @ drop (Suc i) s)"
proof -
  have i: "i < length s" using assms(1) by simp
  have s: "s = take i s @ s ! i # drop (Suc i) s" by (rule id_take_nth_drop[OF i])
  have d: "drop (Suc i) s \<noteq> []" using assms(1) by simp
  have l: "last (take i s @ drop (Suc i) s) = last s"
    using d by (simp add: last_drop assms(1))
  show ?thesis
  proof (cases "c = CHR ''%''")
    case True
    with assms(3) have "last s = c" by (simp add: keptStr_def)
    with l True have "last (take i s @ drop (Suc i) s) = c" by simp
    moreover from this d have "c \<in> set (take i s @ drop (Suc i) s)"
      by (metis append_is_Nil_conv last_in_set)
    ultimately show ?thesis by (simp add: keptStr_def)
  next
    case False
    from assms(3) have "c \<in> set s" by (simp add: keptStr_def)
    then have "c \<in> set (take i s @ s ! i # drop (Suc i) s)" using s by simp
    with False assms(2) have "c \<in> set (take i s @ drop (Suc i) s)" by auto
    with False show ?thesis by (simp add: keptStr_def)
  qed
qed

lemma skipEscaped_kept:
  "param \<noteq> [] \<Longrightarrow> keptStr c sch
   \<Longrightarrow> index = - 1 \<or> (0 \<le> index \<and> nat index < length sch)
   \<Longrightarrow> keptStr c (fst (skipEscaped sch param index))"
proof (induction sch param index rule: skipEscaped.induct)
  case (1 sch param index)
  show ?case
  proof (cases "charAt sch (index - 1) = Some CHR ''%''")
    case False
    then show ?thesis using 1(3) by (subst skipEscaped.simps) simp
  next
    case True
    define sch' where "sch' = substr2 sch 0 (index - 1) @ substr1 sch index"
    from True have i: "1 \<le> index" "nat (index - 1) < length sch" "sch ! nat (index - 1) = CHR ''%''"
      by (auto simp: charAt_def arr_def split: if_splits)
    with 1(4) have v: "nat index < length sch" by auto
    have n: "nat index = Suc (nat (index - 1))" using i(1) by simp
    have "sch' = take (nat (index - 1)) sch @ drop (Suc (nat (index - 1))) sch"
      unfolding sch'_def substr1_def substr2_def n[symmetric] by simp
    with remove_kept[of "nat (index - 1)" sch c] v n i(3) 1(3)
    have k: "keptStr c sch'" by simp
    from 1(1)[OF True sch'_def 1(2) k indexOfFrom_valid[OF 1(2)]]
    have "keptStr c (fst (skipEscaped sch' param (indexOfFrom sch' param (nat (index + 1)))))" .
    then show ?thesis
      using True by (subst skipEscaped.simps) (simp add: sch'_def Let_def)
  qed
qed

lemma checkParameter_kept:
  assumes "k \<noteq> []" "keptStr c (fst acc)"
  shows "keptStr c (fst (checkParameter acc k))"
    and "set (snd (snd (checkParameter acc k))) \<subseteq> insert k (set (snd (snd acc)))"
proof -
  obtain sch ind ps where acc: "acc = (sch, ind, ps)" by (cases acc)
  obtain sch' index where s: "skipEscaped sch k (indexOf sch k) = (sch', index)"
    by (cases "skipEscaped sch k (indexOf sch k)")
  have a: "keptStr c sch" using assms(2) by (simp add: acc)
  have v: "indexOf sch k = - 1 \<or> (0 \<le> indexOf sch k \<and> nat (indexOf sch k) < length sch)"
    unfolding indexOf_def by (rule indexOfFrom_valid[OF assms(1)])
  from skipEscaped_kept[OF assms(1) a v]
  have "keptStr c sch'" by (simp add: s)
  then show "keptStr c (fst (checkParameter acc k))"
    by (simp add: checkParameter_def acc s)
  show "set (snd (snd (checkParameter acc k))) \<subseteq> insert k (set (snd (snd acc)))"
    by (auto simp: checkParameter_def acc s)
qed

lemma checkParameters_kept:
  "list_all (\<lambda>k. k \<noteq> []) ks \<Longrightarrow> keptStr c (fst acc)
   \<Longrightarrow> keptStr c (fst (foldl checkParameter acc ks))
       \<and> set (snd (snd (foldl checkParameter acc ks))) \<subseteq> set ks \<union> set (snd (snd acc))"
proof (induction ks arbitrary: acc)
  case Nil
  then show ?case by simp
next
  case (Cons k ks)
  from Cons.prems have k: "k \<noteq> []" and ks: "list_all (\<lambda>k. k \<noteq> []) ks" by simp_all
  note c = checkParameter_kept[OF k Cons.prems(2)]
  from Cons.IH[OF ks c(1)] c(2) show ?case by auto
qed

text \<open>
  The table is the one the file creates, or that table after a multi-host proxy has been
  compiled: these are the values the variable \<open>Zotero_Proxy_schemeParameters\<close> takes.
\<close>

definition knownTable :: "paramtable \<Rightarrow> bool" where
  "knownTable table =
     (table = Zotero_Proxy_schemeParameters
      \<or> table = AList.update ''%h'' hostParameter Zotero_Proxy_schemeParameters)"

lemma known_candidates: "knownTable table \<Longrightarrow> knownTable (parametersToCheck table p)"
  by (auto simp: knownTable_def parametersToCheck_def Zotero_Proxy_schemeParameters_def)

definition segOf :: "string \<Rightarrow> seg" where
  "segOf k = (if k = ''%h'' then Host else Any)"

lemma known_key:
  assumes "knownTable t" "k \<in> set (map fst t)"
  shows "k = [CHR ''%'', k ! 1] \<and> k ! 1 \<in> set ''pdfah'' \<and> fragmentOf t k = render (segOf k)"
  using assms unfolding knownTable_def Zotero_Proxy_schemeParameters_def
  by (auto simp: fragmentOf_def str_undefined_def segOf_def)

lemma known_keys:
  assumes "knownTable t" "k \<in> set (map fst t)"
  shows "\<exists>x F. k = [CHR ''%'', x] \<and> x \<in> set ''pdfah'' \<and> (F = Any \<or> F = Host)
               \<and> fragmentOf t k = render F"
proof -
  have "segOf k = Any \<or> segOf k = Host" by (simp add: segOf_def)
  with known_key[OF assms] show ?thesis by blast
qed

lemma placeholder_plain: "x \<in> set ''pdfah'' \<Longrightarrow> x \<notin> set metachars \<and> x \<noteq> CHR ''%''"
  by (auto simp: metachars_def)

lemma build:
  assumes t: "knownTable t"
  shows "set ks \<subseteq> set (map fst t)
         \<Longrightarrow> \<exists>segs'. foldl (\<lambda>re param. replaceParam re param (fragmentOf t param))
                         (CHR ''^'' # rend segs @ ''$'') ks
                       = CHR ''^'' # rend segs' @ ''$''
                     \<and> (\<forall>c. c \<notin> set ''pdfah'' \<longrightarrow> keptSeg c segs \<longrightarrow> keptSeg c segs')"
proof (induction ks arbitrary: segs)
  case Nil
  show ?case by (intro exI[of _ segs]) simp
next
  case (Cons k ks)
  from Cons.prems have k: "k \<in> set (map fst t)" and ks: "set ks \<subseteq> set (map fst t)" by simp_all
  from known_keys[OF t k] obtain x F where x: "k = [CHR ''%'', x]" "x \<in> set ''pdfah''"
      "F = Any \<or> F = Host" "fragmentOf t k = render F" by blast
  note p = placeholder_plain[OF x(2)]
  have step: "replaceParam (CHR ''^'' # rend segs @ ''$'') k (fragmentOf t k)
              = CHR ''^'' # rend (replaceSeg True x F segs) @ ''$''"
    unfolding x(1) x(4)[unfolded x(1)] using p x(3) by (intro replaceParam_pattern) simp_all
  from Cons.IH[OF ks, of "replaceSeg True x F segs"] obtain segs' where
    s: "foldl (\<lambda>re param. replaceParam re param (fragmentOf t param))
          (CHR ''^'' # rend (replaceSeg True x F segs) @ ''$'') ks = CHR ''^'' # rend segs' @ ''$''"
       "\<forall>c. c \<notin> set ''pdfah'' \<longrightarrow> keptSeg c (replaceSeg True x F segs) \<longrightarrow> keptSeg c segs'"
    by blast
  have "keptSeg c segs'" if "c \<notin> set ''pdfah''" "keptSeg c segs" for c
  proof -
    from that(1) x(2) have "c \<noteq> x" by auto
    from rep_kept[OF that(2) this, of True F] p s(2) that(1) show ?thesis by simp
  qed
  with s(1) step show ?case by (simp del: replaceParam.simps) blast
qed

lemma unrecognized_kept:
  "unrecognizedSequence s \<Longrightarrow> \<exists>c. keptStr c s \<and> c \<notin> set ''pdfah''"
proof (induction s rule: unrecognizedSequence.induct)
  case 1
  then show ?case by simp
next
  case (2 c)
  then show ?case by (auto simp: keptStr_def)
next
  case (3 c d s)
  have up: "keptStr e (c # d # s)" if "keptStr e s" for e
    using that by (cases "s = []") (auto simp: keptStr_def)
  have up1: "keptStr e (c # d # s)" if "keptStr e (d # s)" for e
    using that by (auto simp: keptStr_def)
  show ?case
  proof (cases "c = CHR ''%''")
    case False
    with 3 up1 show ?thesis by auto
  next
    case True
    show ?thesis
    proof (cases "d = CHR ''%'' \<or> d \<in> set ''pdfah''")
      case True
      with 3 \<open>c = CHR ''%''\<close> up show ?thesis by (auto split: if_splits)
    next
      case False
      then have "keptStr d (c # d # s)" "d \<notin> set ''pdfah''" by (auto simp: keptStr_def)
      then show ?thesis by blast
    qed
  qed
qed

lemma checkParameter_params:
  "set (snd (snd (checkParameter acc k))) \<subseteq> insert k (set (snd (snd acc)))"
  by (cases acc) (auto simp: checkParameter_def split: prod.splits)

lemma checkParameters_params:
  "set (snd (snd (foldl checkParameter acc ks))) \<subseteq> set ks \<union> set (snd (snd acc))"
proof (induction ks arbitrary: acc)
  case Nil
  show ?case by simp
next
  case (Cons k ks)
  from Cons.IH[of "checkParameter acc k"] checkParameter_params[of acc k] show ?case by auto
qed

lemma compileRegexp_total:
  assumes t: "knownTable table"
  shows "\<exists>q rx. compileRegexp table p = Inr (parametersToCheck table p, q)
           \<and> regexp q = Some rx
           \<and> (\<forall>c. keptStr c (scheme p) \<longrightarrow> c \<notin> set ''pdfah''
                  \<longrightarrow> (\<forall>u m. exec rx u = Some m \<longrightarrow> c \<in> set u))"
proof -
  let ?t = "parametersToCheck table p"
  note kt = known_candidates[OF t, of p]
  obtain sch ind ps where f: "foldl checkParameter (scheme p, [], []) (map fst ?t) = (sch, ind, ps)"
    by (cases "foldl checkParameter (scheme p, [], []) (map fst ?t)")
  have ne: "list_all (\<lambda>k. k \<noteq> []) (map fst ?t)"
    unfolding list_all_iff using known_key[OF kt] by (metis list.distinct(1))
  have kept: "keptStr c sch" if "keptStr c (scheme p)" for c
    using checkParameters_kept[OF ne, of c "(scheme p, [], [])"] that by (simp add: f)
  have ps: "set ps \<subseteq> set (map fst ?t)"
    using checkParameters_params[of "(scheme p, [], [])" "map fst ?t"] by (simp add: f)
  let ?sorted = "sort_key (indexOfParam ind) ps"
  have "set (rev ?sorted) \<subseteq> set (map fst ?t)" using ps by simp
  from build[OF kt this, of "map Ch sch"] obtain segs where
    re: "foldl (\<lambda>re param. replaceParam re param (fragmentOf ?t param))
           (CHR ''^'' # quotemeta sch @ ''$'') (rev ?sorted) = CHR ''^'' # rend segs @ ''$''"
    and ks: "\<And>c. c \<notin> set ''pdfah'' \<Longrightarrow> keptSeg c (map Ch sch) \<Longrightarrow> keptSeg c segs"
    unfolding rend_chars by blast
  let ?rx = "\<lparr>pattern = seq (Bol # itemsOf 0 segs @ [Eol]), ignoreCase = False\<rparr>"
  let ?q = "p\<lparr>scheme := sch, indices := ind, parameters := ?sorted, regexp := Some ?rx\<rparr>"
  have c: "compileRegexp table p = Inr (?t, ?q)"
    unfolding compileRegexp_def parametersToCheck_def[symmetric] Let_def f
    using re by (simp add: RegExp_rend del: replaceParam.simps)
  have "c \<in> set u"
    if "keptStr c (scheme p)" "c \<notin> set ''pdfah''" "exec ?rx u = Some m" for c u m
  proof -
    from ks[OF that(2) keptSeg_chars[OF kept[OF that(1)]]] have "Ch c \<in> set segs"
      by (simp add: keptSeg_def)
    from exec_contains[OF _ _ items_lit[OF this] that(3)] show ?thesis by simp
  qed
  with c show ?thesis by (intro exI[of _ ?q] exI[of _ ?rx]) auto
qed

text \<open>A template with the sequence \<open>%z\<close> and the placeholder \<open>%p\<close>.\<close>

definition unknownPathTemplate :: proxy where
  "unknownPathTemplate = newProxy\<lparr>scheme := ''https://proxy.example.com/%z/%p''\<rparr>"

text \<open>
  C4, amended: \<open>compileRegexp\<close> rejects no template. A template with a \<open>%\<close> sequence
  that is none of the five placeholders compiles, with or without placeholders beside
  it, and a character of the template occurs in every URL that the matcher matches (the
  character after the \<open>%\<close> of the sequence, which stays in the pattern as text, or the
  \<open>%\<close> itself where the template ends with it); so the matcher never matches
  everything.
\<close>

theorem compileRegexp_keeps_unrecognized:
  assumes "knownTable table" and "unrecognizedSequence (scheme p)"
  shows "\<exists>q rx c. compileRegexp table p = Inr (parametersToCheck table p, q)
           \<and> regexp q = Some rx
           \<and> c \<in> set (scheme p)
           \<and> (\<forall>u m. exec rx u = Some m \<longrightarrow> c \<in> set u)"
proof -
  from unrecognized_kept[OF assms(2)] obtain c where
    c: "keptStr c (scheme p)" "c \<notin> set ''pdfah''" by blast
  from compileRegexp_total[OF assms(1), of p] obtain q rx where
    q: "compileRegexp table p = Inr (parametersToCheck table p, q)" "regexp q = Some rx"
       "\<forall>c. keptStr c (scheme p) \<longrightarrow> c \<notin> set ''pdfah''
            \<longrightarrow> (\<forall>u m. exec rx u = Some m \<longrightarrow> c \<in> set u)"
    by blast
  from q(3) c have "\<forall>u m. exec rx u = Some m \<longrightarrow> c \<in> set u" by blast
  moreover from c(1) have "c \<in> set (scheme p)" by (simp add: keptStr_def)
  ultimately show ?thesis using q(1,2) by blast
qed

theorem compileRegexp_keeps_unrecognized_witness:
  "knownTable Zotero_Proxy_schemeParameters
   \<and> unrecognizedSequence (scheme unknownPathTemplate)
   \<and> parametersOf (compileRegexp Zotero_Proxy_schemeParameters unknownPathTemplate) = Inr [''%p'']
   \<and> matchOf unknownPathTemplate ''https://proxy.example.com/%z/article''
       = Inr (Some [Some ''https://proxy.example.com/%z/article'', Some ''article''])
   \<and> matchOf unknownPathTemplate ''https://proxy.example.com/x/article'' = Inr None
   \<and> (\<exists>q rx c. compileRegexp Zotero_Proxy_schemeParameters unknownPathTemplate
                   = Inr (parametersToCheck Zotero_Proxy_schemeParameters unknownPathTemplate, q)
           \<and> regexp q = Some rx
           \<and> c \<in> set (scheme unknownPathTemplate)
           \<and> (\<forall>u m. exec rx u = Some m \<longrightarrow> c \<in> set u))"
proof -
  have h1: "knownTable Zotero_Proxy_schemeParameters"
    by code_simp
  have h2: "unrecognizedSequence (scheme unknownPathTemplate)"
    by code_simp
  have e: "parametersOf (compileRegexp Zotero_Proxy_schemeParameters unknownPathTemplate) = Inr [''%p'']
     \<and> matchOf unknownPathTemplate ''https://proxy.example.com/%z/article''
         = Inr (Some [Some ''https://proxy.example.com/%z/article'', Some ''article''])
     \<and> matchOf unknownPathTemplate ''https://proxy.example.com/x/article'' = Inr None"
    by code_simp
  note c = compileRegexp_keeps_unrecognized[OF h1 h2]
  from h1 h2 e c show ?thesis by blast
qed


section \<open>From a proxied URL to the proper URL and back\<close>

text \<open>
  \<open>toProper\<close> and \<open>toProxy\<close> on a template that ends in the path placeholder, such as
  the templates the EZproxy detector builds for a proxy by port: the text before \<open>/%p\<close>
  has no \<open>%\<close>. First the matcher of such a template: the text up to the slash, then
  the group of \<open>%p\<close>, which \<open>(.*?)$\<close> makes the rest of the URL.
\<close>

lemma dot_char: "ms ci Dot st = one_char dot_match st"
  by (simp add: ms.simps(3))

lemma takeWhile_length_all: "length s \<le> length (takeWhile P s) \<longleftrightarrow> list_all P s"
  by (induction s) auto

lemma lazy_rest_set:
  "set (ms False (Cat (Grp n (Star False Dot)) Eol) (pos, s, caps))
        = {(pos + k, drop k s, (n, take k s) # caps) | k.
             k \<le> length (takeWhile dot_match s) \<and> drop k s = []}"
  unfolding ms.simps(7) ms.simps(9) set_concat set_map star_char[OF dot_char] image_image
  by (auto simp: ms.simps(6) set_cap_def)

lemma lazy_rest:
  "set (ms False (Cat (Grp n (Star False Dot)) Eol) (pos, s, caps))
   = (if list_all dot_match s then {(pos + length s, [], (n, s) # caps)} else {})"
proof (cases "list_all dot_match s")
  case True
  then have "length (takeWhile dot_match s) = length s"
    by (simp add: takeWhile_all list_all_iff)
  then show ?thesis unfolding lazy_rest_set using True by (auto simp: le_antisym)
next
  case False
  then have "length (takeWhile dot_match s) < length s"
    using takeWhile_length_all[of s dot_match] by simp
  then show ?thesis unfolding lazy_rest_set using False by auto
qed

lemma singleton_hd: "set l = {x} \<Longrightarrow> \<exists>t. l = x # t"
  by (cases l) auto

lemma ngroups_seq: "ngroups (seq xs) = sum_list (map ngroups xs)"
  by (induction xs rule: seq.induct) simp_all

lemma path_ms:
  "ms False (seq (Bol # map Lit pre @ [Grp 1 (Star False Dot), Eol])) (0, u, [])
           = (if take (length pre) u = pre
              then ms False (Cat (Grp 1 (Star False Dot)) Eol) (length pre, drop (length pre) u, []) else [])"
  using ms_lits[of pre "[Grp 1 (Star False Dot), Eol]" 0 u "[]"]
  by (simp add: ms_Bol_start)

lemma path_ngroups:
  "ngroups (seq (Bol # map Lit pre @ [Grp 1 (Star False Dot), Eol])) = 1"
  by (simp add: ngroups_seq comp_def)

lemma lazy_first:
  assumes "list_all dot_match r"
  shows "\<exists>t. ms False (Cat (Grp 1 (Star False Dot)) Eol) (length pre, r, [])
                       = (length pre + length r, [], [(1, r)]) # t"
proof (rule singleton_hd)
  show "set (ms False (Cat (Grp 1 (Star False Dot)) Eol) (length pre, r, []))
             = {(length pre + length r, [], [(1, r)])}"
    unfolding lazy_rest using assms by simp
qed

lemma path_first:
  assumes "list_all dot_match r"
  shows "\<exists>t. ms False (seq (Bol # map Lit pre @ [Grp 1 (Star False Dot), Eol])) (0, pre @ r, [])
        = (length pre + length r, [], [(1, r)]) # t"
  unfolding path_ms using lazy_first[OF assms, of pre] by simp

lemma match_path:
  assumes "pattern rx = seq (Bol # map Lit pre @ [Grp 1 (Star False Dot), Eol])"
      and "ignoreCase rx = False" and "list_all dot_match r"
  shows "match_at rx 0 (pre @ r) = Some [Some (pre @ r), Some r]"
proof -
  obtain t where m: "ms False (seq (Bol # map Lit pre @ [Grp 1 (Star False Dot), Eol])) (0, pre @ r, [])
        = (length pre + length r, [], [(1, r)]) # t"
    using path_first[OF assms(3)] by blast
  have "match_at rx 0 (pre @ r)
        = (case ms False (seq (Bol # map Lit pre @ [Grp 1 (Star False Dot), Eol])) (0, pre @ r, []) of
        [] \<Rightarrow> None
      | (pos', s', caps) # _ \<Rightarrow>
          Some (Some (take (pos' - 0) (pre @ r)) # map (map_of caps) [1 ..< Suc 1]))"
    by (simp only: match_at_def assms(1) assms(2) path_ngroups)
  also have "\<dots> = Some [Some (pre @ r), Some r]"
    unfolding m by simp
  finally show ?thesis .
qed

lemma nomatch_path:
  assumes "pattern rx = seq (Bol # map Lit pre @ [Grp 1 (Star False Dot), Eol])"
      and "ignoreCase rx = False"
      and "\<not> (take (length pre) u = pre \<and> list_all dot_match (drop (length pre) u))"
  shows "match_at rx 0 u = None"
proof -
  have "set (ms False (seq (Bol # map Lit pre @ [Grp 1 (Star False Dot), Eol])) (0, u, [])) = {}"
    unfolding path_ms using assms(3) by (simp add: lazy_rest)
  then have m: "ms False (seq (Bol # map Lit pre @ [Grp 1 (Star False Dot), Eol])) (0, u, []) = []"
    by simp
  have "match_at rx 0 u
        = (case ms False (seq (Bol # map Lit pre @ [Grp 1 (Star False Dot), Eol])) (0, u, []) of
        [] \<Rightarrow> None
      | (pos', s', caps) # _ \<Rightarrow>
          Some (Some (take (pos' - 0) u) # map (map_of caps) [1 ..< Suc 1]))"
    by (simp only: match_at_def assms(1) assms(2) path_ngroups)
  also have "\<dots> = None"
    unfolding m by simp
  finally show ?thesis .
qed

lemma exec_path_pattern:
  assumes "pattern rx = seq (Bol # map Lit pre @ [Grp 1 (Star False Dot), Eol])"
      and "ignoreCase rx = False"
  shows "exec rx u = Some m \<longleftrightarrow>
           (\<exists>r. u = pre @ r \<and> list_all dot_match r \<and> m = [Some u, Some r])"
proof (cases "take (length pre) u = pre \<and> list_all dot_match (drop (length pre) u)")
  case True
  then have u: "u = pre @ drop (length pre) u"
    by (metis append_take_drop_id)
  have "match_at rx 0 (pre @ drop (length pre) u)
        = Some [Some (pre @ drop (length pre) u), Some (drop (length pre) u)]"
    using True by (intro match_path[OF assms]) simp
  then have e: "exec rx u = Some [Some u, Some (drop (length pre) u)]"
    unfolding exec_Bol[OF assms(1)] using u by simp
  show ?thesis
  proof
    assume "exec rx u = Some m"
    with e have "m = [Some u, Some (drop (length pre) u)]" by simp
    with u True show "\<exists>r. u = pre @ r \<and> list_all dot_match r \<and> m = [Some u, Some r]"
      by blast
  next
    assume "\<exists>r. u = pre @ r \<and> list_all dot_match r \<and> m = [Some u, Some r]"
    then obtain r where "u = pre @ r" "m = [Some u, Some r]" by blast
    then show "exec rx u = Some m" using e by simp
  qed
next
  case False
  have "exec rx u = None"
    unfolding exec_Bol[OF assms(1)] by (rule nomatch_path[OF assms False])
  moreover have "\<not> (\<exists>r. u = pre @ r \<and> list_all dot_match r \<and> m = [Some u, Some r])"
    using False by auto
  ultimately show ?thesis by simp
qed

text \<open>The pattern that \<open>compileRegexp\<close> builds for the template, and what
  \<open>new RegExp\<close> reads from it.\<close>

lemma RegExp_path:
  "RegExp (CHR ''^'' # quotemeta base @ ''/(.*?)$'')
   = Inr \<lparr>pattern = seq (Bol # map Lit (base @ ''/'') @ [Grp 1 (Star False Dot), Eol]),
          ignoreCase = False\<rparr>"
proof -
  have t: "tokenize (CHR ''^'' # quotemeta base @ ''/(.*?)$'')
           = Inr (TBol # map TLit base @ [TLit CHR ''/'', TOpen, TDot, TStar, TQuest, TClose, TEol])"
    by (simp add: tokenize_def plain_tok_def tokenize_quotemeta tapp_def tcons_def)
  have "parse_go [(0, [], [])] 0 False
          (TBol # map TLit base @ [TLit CHR ''/'', TOpen, TDot, TStar, TQuest, TClose, TEol])
        = Inr (seq (Bol # map Lit (base @ ''/'') @ [Grp 1 (Star False Dot), Eol]))"
    by (simp add: parse_literals is_quantifier_def atom_of_def close_frame_def quantify_def)
  with t show ?thesis by (simp add: RegExp_def)
qed

lemma find_sub_skip:
  "c \<notin> set pre \<Longrightarrow> find_sub (c # k) (pre @ rest) = map_option (\<lambda>i. length pre + i) (find_sub (c # k) rest)"
proof (induction pre)
  case Nil
  show ?case by (simp add: option.map_ident)
next
  case (Cons x pre)
  then show ?case by (auto simp: startsWith_def option.map_comp comp_def)
qed

lemma indexOf_skip:
  "c \<notin> set pre \<Longrightarrow>
   indexOf (pre @ rest) (c # k) = (case find_sub (c # k) rest of None \<Rightarrow> - 1 | Some i \<Rightarrow> int (length pre + i))"
  by (simp add: indexOf_def indexOfFrom_def find_sub_skip split: option.splits)

lemma quotemeta_append: "quotemeta (a @ b) = quotemeta a @ quotemeta b"
  by (simp add: quotemeta_def)

lemma quotemeta_set: "c \<in> set (quotemeta s) \<Longrightarrow> c \<in> set s \<or> c = bslash"
  by (auto simp: quotemeta_def split: if_splits)

lemma replaceParam_skip:
  "CHR ''%'' \<notin> set pre \<Longrightarrow> x \<noteq> CHR ''%'' \<Longrightarrow>
   replaceParam (pre @ x # CHR ''%'' # k @ rest) (CHR ''%'' # k) frag = pre @ x # frag @ rest"
proof (induction pre)
  case Nil
  then show ?case by (simp add: startsWith_def)
next
  case (Cons y pre)
  then show ?case 
    by (cases pre) (auto simp: startsWith_def)
qed

lemma indexOf_path_param:
  "CHR ''%'' \<notin> set base \<Longrightarrow> indexOf (base @ ''/%p'') ''%p'' = 1 + int (length base)"
  by (simp add: indexOf_skip startsWith_def)

lemma indexOf_other_param:
  "CHR ''%'' \<notin> set base \<Longrightarrow> c \<noteq> CHR ''p'' \<Longrightarrow> indexOf (base @ ''/%p'') [CHR ''%'', c] = - 1"
  by (simp add: indexOf_skip startsWith_def)

lemma skipEscaped_path:
  "skipEscaped (base @ ''/%p'') param (1 + int (length base)) = (base @ ''/%p'', 1 + int (length base))"
  by (subst skipEscaped.simps) (simp add: charAt_def arr_def nth_append)

lemma checkParameter_found:
  "CHR ''%'' \<notin> set base \<Longrightarrow>
   checkParameter (base @ ''/%p'', ind, ps) ''%p''
   = (base @ ''/%p'', AList.update ''%p'' (Suc (length base)) ind, ps @ [''%p''])"
proof -
  have n: "nat (1 + int (length base)) = Suc (length base)" by simp
  assume "CHR ''%'' \<notin> set base"
  then show ?thesis
    by (simp add: checkParameter_def indexOf_path_param skipEscaped_path n)
qed

lemma checkParameter_other:
  "CHR ''%'' \<notin> set base \<Longrightarrow> c \<noteq> CHR ''p'' \<Longrightarrow>
   checkParameter (base @ ''/%p'', ind, ps) [CHR ''%'', c] = (base @ ''/%p'', ind, ps)"
  by (rule checkParameter_absent) (rule indexOf_other_param)

lemma checkParameters_path:
  assumes "CHR ''%'' \<notin> set base" "knownTable table"
  shows "foldl checkParameter (base @ ''/%p'', [], []) (map fst table)
         = (base @ ''/%p'', [(''%p'', Suc (length base))], [''%p''])"
  using assms(2) unfolding knownTable_def Zotero_Proxy_schemeParameters_def
  by (auto simp: checkParameter_found[OF assms(1)] checkParameter_other[OF assms(1)])

lemma fragment_path: "knownTable table \<Longrightarrow> fragmentOf table ''%p'' = ''(.*?)''"
  unfolding knownTable_def Zotero_Proxy_schemeParameters_def
  by (auto simp: fragmentOf_def str_undefined_def)

lemma pattern_path:
  assumes "CHR ''%'' \<notin> set base"
  shows "replaceParam (CHR ''^'' # quotemeta (base @ ''/%p'') @ ''$'') ''%p'' ''(.*?)''
         = CHR ''^'' # quotemeta base @ ''/(.*?)$''"
proof -
  have q: "quotemeta ''/%p'' = ''/%p''" by (simp add: quotemeta_def metachars_def)
  have n: "CHR ''%'' \<notin> set (CHR ''^'' # quotemeta base)"
    using assms quotemeta_set[of "CHR ''%''" base] by auto
  show ?thesis
    using replaceParam_skip[OF n, of "CHR ''/''" "''p''" "''$''" "''(.*?)''"]
    by (simp add: quotemeta_append q)
qed

lemma compileRegexp_path:
  assumes "scheme p = base @ ''/%p''" "CHR ''%'' \<notin> set base" "\<not> multiHost p" "knownTable table"
  shows "compileRegexp table p
         = Inr (table,
                p\<lparr>indices := [(''%p'', Suc (length base))], parameters := [''%p''],
                  regexp := Some \<lparr>pattern = seq (Bol # map Lit (base @ ''/'') @ [Grp 1 (Star False Dot), Eol]),
                                  ignoreCase = False\<rparr>\<rparr>)"
proof -
  have c: "foldl checkParameter (scheme p, [], []) (map fst table)
           = (base @ ''/%p'', [(''%p'', Suc (length base))], [''%p''])"
    unfolding assms(1) by (rule checkParameters_path[OF assms(2,4)])
  have s: "p\<lparr>scheme := base @ ''/%p''\<rparr> = p"
    using assms(1) by simp
  show ?thesis
    unfolding compileRegexp_def Let_def
    using assms(3) s
    by (simp add: c fragment_path[OF assms(4)] pattern_path[OF assms(2)] RegExp_path
          del: replaceParam.simps)
qed

lemma split_proto_http: "split_proto (''http://'' @ rest) = (Some ''http:'', ''//'' @ rest)"
  by (simp add: split_proto_def proto_char_def is_alnum_def toLowerCase_def lower_char_def)

text \<open>\<open>url.parse\<close> on the proper URL: the path is what follows the host.\<close>

lemma host_end:
  assumes "list_all (\<lambda>c. c \<notin> set nonHostChars) h"
  shows "takeWhile (\<lambda>c. c \<notin> set nonHostChars) (h @ CHR ''/'' # r) = h"
    and "dropWhile (\<lambda>c. c \<notin> set nonHostChars) (h @ CHR ''/'' # r) = CHR ''/'' # r"
proof -
  have s: "CHR ''/'' \<in> set nonHostChars" by (simp add: nonHostChars_def)
  have a: "\<forall>x\<in>set h. x \<notin> set nonHostChars" using assms by (simp add: list_all_iff)
  show "takeWhile (\<lambda>c. c \<notin> set nonHostChars) (h @ CHR ''/'' # r) = h"
    using a s by (simp add: takeWhile_append2)
  show "dropWhile (\<lambda>c. c \<notin> set nonHostChars) (h @ CHR ''/'' # r) = CHR ''/'' # r"
    using a s by (simp add: dropWhile_append2)
qed

lemma no_hash:
  "CHR ''#'' \<notin> set r \<Longrightarrow> takeWhile (\<lambda>c. c \<noteq> CHR ''#'') r = r \<and> dropWhile (\<lambda>c. c \<noteq> CHR ''#'') r = []"
  by (induction r) auto

lemma url_parse_path:
  assumes "list_all (\<lambda>c. c \<notin> set nonHostChars) h" "CHR ''#'' \<notin> set r"
  shows "path (url_parse (''http://'' @ h @ ''/'' @ r)) = Some (''/'' @ r)"
proof -
  have p: "split_proto (''http://'' @ h @ ''/'' @ r) = (Some ''http:'', ''//'' @ h @ ''/'' @ r)"
    by (rule split_proto_http)
  have n: "takeWhile (\<lambda>c. c \<noteq> CHR ''#'') (CHR ''/'' # r) = CHR ''/'' # r"
          "dropWhile (\<lambda>c. c \<noteq> CHR ''#'') (CHR ''/'' # r) = []"
    using no_hash[of "CHR ''/'' # r"] assms(2) by simp_all
  have q: "takeWhile (\<lambda>c. c \<noteq> CHR ''?'') (CHR ''/'' # r) \<noteq> []" by simp
  show ?thesis
    unfolding url_parse_def p
    by (simp add: Let_def host_end[OF assms(1)] n q hostlessProtocol_def slashedProtocol_def
          nonempty_def orEmpty_def del: takeWhile.simps dropWhile.simps)
qed

text \<open>
  The URLs within the reach of the model of \<open>url.parse\<close>: a host name that the module
  takes without correction (letters, digits, dots and hyphens, no longer than a label
  may be), and a URL with none of the characters the module escapes (\<open>autoEscape\<close>,
  its list without \<open>%/?;#\<close> is what remains of \<open>nonHostChars\<close>) and without a
  fragment.
\<close>

definition plainHost :: "string \<Rightarrow> bool" where
  "plainHost h = (length h \<le> 63 \<and> list_all (\<lambda>c. is_alnum c \<or> c = CHR ''.'' \<or> c = CHR ''-'') h)"

definition autoEscape :: "char list" where
  "autoEscape = filter (\<lambda>c. c \<notin> set ''%/?;'') nonHostChars"

definition plainURL :: "string \<Rightarrow> bool" where
  "plainURL u = list_all (\<lambda>c. c \<notin> set autoEscape) u"

lemma plainHost_chars: "plainHost h \<Longrightarrow> list_all (\<lambda>c. c \<notin> set nonHostChars) h"
  unfolding plainHost_def list_all_iff
  by (auto simp: nonHostChars_def is_alnum_def)

lemma plainURL_append: "plainURL (a @ b) \<longleftrightarrow> plainURL a \<and> plainURL b"
  by (simp add: plainURL_def)

lemma plainURL_dot: "plainURL r \<Longrightarrow> list_all dot_match r"
  unfolding plainURL_def list_all_iff
  by (auto simp: autoEscape_def nonHostChars_def dot_match_def)

lemma plainURL_hash: "plainURL r \<Longrightarrow> CHR ''#'' \<notin> set r"
  unfolding plainURL_def list_all_iff
  by (auto simp: autoEscape_def nonHostChars_def)

lemma toProper_path:
  assumes "\<not> multiHost q" "hosts q = h # hs" "indices q = [(''%p'', Suc n)]" "parameters q = [''%p'']"
  shows "toProper q [Some u, Some r] = ''http://'' @ h @ ''/'' @ r"
  using assms by (simp add: toProper_def paramGroup_def matchText_def arr_def str_undefined_def)

lemma toProxy_path:
  assumes "scheme q = base @ ''/%p''" "indices q = [(''%p'', Suc (length base))]"
      and "parameters q = [''%p'']" "regexp q = Some rx" "path uri = Some (CHR ''/'' # r)"
  shows "toProxy q uri = Inr (base @ ''/'' @ r)"
proof -
  have n: "nat (1 + int (length base)) = Suc (length base)"
          "nat (3 + int (length base)) = Suc (Suc (Suc (length base)))" by simp_all
  show ?thesis
    using assms
    by (simp add: toProxy_def substitute_def paramValue_def indexOfParam_def substr1_def
          substr2_def n)
qed

text \<open>
  The proxy that the Juniper detector creates for the URL
  \<open>https://vpn.example.edu/dir,DanaInfo=www.example.com,SSL+file.html\<close>, and the way
  from a proxied URL to the proper URL and back to a proxied URL: \<open>reproxied\<close>.
  \<open>compiled\<close> and \<open>matcher\<close> are the proxy and the pattern after \<open>compileRegexp\<close>
  on the table as the file creates it.
\<close>

definition juniperProxy :: proxy where
  "juniperProxy =
     newProxy\<lparr>multiHost := True,
              scheme := ''https://vpn.example.edu/%d,DanaInfo=%h%a+%f'',
              hosts := [''www.example.com'']\<rparr>"

definition juniperURL :: string where
  "juniperURL = ''https://vpn.example.edu/dir,DanaInfo=www.example.com,SSL+file.html''"

definition reproxied :: "proxy \<Rightarrow> string \<Rightarrow> error + string option" where
  "reproxied p u =
     (case compileRegexp Zotero_Proxy_schemeParameters p of
        Inl e \<Rightarrow> Inl e
      | Inr (table, q) \<Rightarrow>
          (case regexp q of
             None \<Rightarrow> Inr None
           | Some rx \<Rightarrow>
               (case exec rx u of
                  None \<Rightarrow> Inr None
                | Some m \<Rightarrow>
                    (case toProxy q (url_parse (toProper q m)) of
                       Inl e \<Rightarrow> Inl e
                     | Inr v \<Rightarrow> Inr (Some v)))))"

definition compiled :: "proxy \<Rightarrow> proxy" where
  "compiled p =
     (case compileRegexp Zotero_Proxy_schemeParameters p of Inl e \<Rightarrow> p | Inr (table, q) \<Rightarrow> q)"

definition matcher :: "proxy \<Rightarrow> regexp" where
  "matcher p = (case regexp (compiled p) of None \<Rightarrow> \<lparr>pattern = Eps, ignoreCase = False\<rparr> | Some rx \<Rightarrow> rx)"

text \<open>
  The branch of \<open>toProxy\<close> for \<open>%p\<close> leaves out the slash the path starts with
  (\<open>uri.path.substr(1)\<close>), as \<open>toProper\<close> puts one before the value of \<open>%p\<close>. So for
  a proxy of one host whose template is a text without \<open>%\<close> followed by \<open>/%p\<close>, and
  every URL its matcher matches (within the reach of the model of \<open>url.parse\<close>),
  \<open>toProxy\<close> of the parsed \<open>toProper\<close> of the match is the URL itself: it matches
  again and has the same proper URL.
\<close>

theorem roundTrip_path:
  assumes "scheme p = base @ ''/%p''" and "CHR ''%'' \<notin> set base"
      and "\<not> multiHost p" and "hosts p = h # hs" and "plainHost h"
      and "knownTable table"
      and "compileRegexp table p = Inr (table', q)" and "regexp q = Some rx"
      and "exec rx u = Some m" and "plainURL u"
  shows "toProxy q (url_parse (toProper q m)) = Inr u"
proof -
  let ?rx = "\<lparr>pattern = seq (Bol # map Lit (base @ ''/'') @ [Grp 1 (Star False Dot), Eol]),
              ignoreCase = False\<rparr>"
  have q: "q = p\<lparr>indices := [(''%p'', Suc (length base))], parameters := [''%p''],
                 regexp := Some ?rx\<rparr>"
    using compileRegexp_path[OF assms(1,2,3,6)] assms(7) by simp
  have rx: "rx = ?rx" using assms(8) unfolding q by simp
  have "pattern rx = seq (Bol # map Lit (base @ ''/'') @ [Grp 1 (Star False Dot), Eol])"
       "ignoreCase rx = False"
    unfolding rx by simp_all
  from exec_path_pattern[OF this, of u m] assms(9)
  obtain r where r: "u = (base @ ''/'') @ r" "m = [Some u, Some r]" by blast
  have pr: "plainURL r" using assms(10) unfolding r(1) by (simp add: plainURL_def)
  have "toProper q m = ''http://'' @ h @ ''/'' @ r"
    unfolding r(2)
    by (rule toProper_path[where n = "length base" and hs = hs])
       (simp_all add: q assms(3,4))
  moreover have "path (url_parse (''http://'' @ h @ ''/'' @ r)) = Some (CHR ''/'' # r)"
    using url_parse_path[OF plainHost_chars[OF assms(5)] plainURL_hash[OF pr]] by simp
  ultimately have "toProxy q (url_parse (toProper q m)) = Inr (base @ ''/'' @ r)"
    by (intro toProxy_path[where rx = ?rx]) (simp_all add: q assms(1))
  then show ?thesis unfolding r(1) by simp
qed

definition articleURL :: string where
  "articleURL = ''https://proxy.example.com:2048/article/view?id=7''"

theorem roundTrip_path_witness:
  "scheme journalProxyA = ''https://proxy.example.com:2048'' @ ''/%p''
   \<and> CHR ''%'' \<notin> set ''https://proxy.example.com:2048''
   \<and> \<not> multiHost journalProxyA
   \<and> hosts journalProxyA = ''journal.example.org'' # []
   \<and> plainHost ''journal.example.org''
   \<and> knownTable Zotero_Proxy_schemeParameters
   \<and> compileRegexp Zotero_Proxy_schemeParameters journalProxyA
       = Inr (Zotero_Proxy_schemeParameters, compiled journalProxyA)
   \<and> regexp (compiled journalProxyA) = Some (matcher journalProxyA)
   \<and> exec (matcher journalProxyA) articleURL = Some [Some articleURL, Some ''article/view?id=7'']
   \<and> plainURL articleURL
   \<and> toProxy (compiled journalProxyA)
         (url_parse (toProper (compiled journalProxyA) [Some articleURL, Some ''article/view?id=7'']))
       = Inr articleURL"
proof -
  have h1: "scheme journalProxyA = ''https://proxy.example.com:2048'' @ ''/%p''"
    by code_simp
  have h2: "CHR ''%'' \<notin> set ''https://proxy.example.com:2048''"
    by code_simp
  have h3: "\<not> multiHost journalProxyA"
    by code_simp
  have h4: "hosts journalProxyA = ''journal.example.org'' # []"
    by code_simp
  have h5: "plainHost ''journal.example.org''"
    by code_simp
  have h6: "knownTable Zotero_Proxy_schemeParameters"
    by code_simp
  have h7: "compileRegexp Zotero_Proxy_schemeParameters journalProxyA
            = Inr (Zotero_Proxy_schemeParameters, compiled journalProxyA)"
    by code_simp
  have h8: "regexp (compiled journalProxyA) = Some (matcher journalProxyA)"
    by code_simp
  have h9: "exec (matcher journalProxyA) articleURL
            = Some [Some articleURL, Some ''article/view?id=7'']"
    by code_simp
  have h10: "plainURL articleURL"
    by code_simp
  note c = roundTrip_path[OF h1 h2 h3 h4 h5 h6 h7 h8 h9 h10]
  show ?thesis by (intro conjI h1 h2 h3 h4 h5 h6 h7 h8 h9 h10 c)
qed

text \<open>
  C1. The claim is that \<open>toProxy\<close> of \<open>toProper\<close> of a match gives a URL that the proxy
  matches and whose proper URL is the same again. The branch of \<open>toProxy\<close> for \<open>%d\<close>
  takes the path up to its last slash from its first character on
  (\<open>uri.path.substr(0, uri.path.lastIndexOf("/"))\<close>), so with the slash that the branch
  for \<open>%p\<close> leaves out and that \<open>toProper\<close> does not expect in the value of \<open>%d\<close>. With
  the proxy that the Juniper detector creates, the proper URL
  \<open>http://www.example.com/dir/file.html\<close> goes back to a proxied URL with \<open>//dir\<close>, whose
  proper URL is \<open>http://www.example.com//dir/file.html\<close>; with a template in \<open>%p\<close> the
  way back gives the URL started from.
\<close>

theorem toProxy_directory_slash:
  "Juniper \<lparr>url = juniperURL, statusCode = 200, requestID = None, requestHeaders = None,
            responseHeaders = None, originUrl = None\<rparr> = Some juniperProxy
   \<and> canonical juniperProxy juniperURL = Inr (Some ''http://www.example.com/dir/file.html'')
   \<and> reproxied juniperProxy juniperURL
       = Inr (Some ''https://vpn.example.edu//dir,DanaInfo=www.example.com+file.html'')
   \<and> canonical juniperProxy ''https://vpn.example.edu//dir,DanaInfo=www.example.com+file.html''
       = Inr (Some ''http://www.example.com//dir/file.html'')
   \<and> reproxied journalProxyA articleURL = Inr (Some articleURL)"
  by code_simp

end
